theory Spec2Isabelle
  imports Complex_Main "HOL-Library.Word" "HOL-Library.Log_Nat"
begin

section \<open>Go values used by package imaging\<close>

text \<open>
  The development embeds \<^verbatim>\<open>pkg/imaging/tools.go\<close>. Go's \<^verbatim>\<open>int\<close> is modelled by
  \<^typ>\<open>int\<close>: coordinates and buffer offsets of images that fit in memory stay far from
  the 64-bit limits, and nothing below depends on wrap-around. \<^verbatim>\<open>uint8\<close> is an 8-bit
  word, compared unsigned as in Go. A runtime panic (index or slice bounds out of range,
  negative length passed to \<^verbatim>\<open>make\<close>) is the value \<open>None\<close>.
\<close>

type_synonym uint8 = "8 word"

subsection \<open>float64\<close>

text \<open>
  A \<^verbatim>\<open>float64\<close> is a rational, an infinity or NaN. Every arithmetic operation computes
  the exact rational result and rounds it with \<open>rnd\<close>: IEEE 754 binary64, round to
  nearest, ties to even, with gradual underflow below \<open>2 powi (- 1022)\<close> and overflow to
  an infinity. The two zeros are identified: no divisor in the program can be a negative
  zero, and every conversion to an integer maps both zeros to 0.
\<close>

datatype float64 = Finite rat | PosInf | NegInf | NaN

definition ilog2 :: "rat \<Rightarrow> int" where
  "ilog2 q = (if 1 \<le> q then bitlen \<lfloor>q\<rfloor> - 1 else - bitlen (\<lceil>1 / q\<rceil> - 1))"

definition round_even :: "rat \<Rightarrow> int" where
  "round_even q = (let f = \<lfloor>q\<rfloor>; d = q - of_int f in
     if d < 1 / 2 then f else if 1 / 2 < d then f + 1 else if even f then f else f + 1)"

definition rnd :: "rat \<Rightarrow> float64" where
  "rnd q = (if q = 0 then Finite 0 else
     let e = max (ilog2 \<bar>q\<bar>) (- 1022);
         m = round_even (\<bar>q\<bar> / 2 powi (e - 52))
     in if 1023 < e \<or> (e = 1023 \<and> m = 2 ^ 53) then (if 0 < q then PosInf else NegInf)
        else Finite (sgn q * (of_int m * 2 powi (e - 52))))"

definition f64_neg :: "float64 \<Rightarrow> float64" where
  "f64_neg x = (case x of Finite a \<Rightarrow> Finite (- a) | PosInf \<Rightarrow> NegInf
     | NegInf \<Rightarrow> PosInf | NaN \<Rightarrow> NaN)"

fun f64_add :: "float64 \<Rightarrow> float64 \<Rightarrow> float64" where
  "f64_add (Finite a) (Finite b) = rnd (a + b)"
| "f64_add NaN _ = NaN"
| "f64_add _ NaN = NaN"
| "f64_add PosInf NegInf = NaN"
| "f64_add NegInf PosInf = NaN"
| "f64_add PosInf _ = PosInf"
| "f64_add _ PosInf = PosInf"
| "f64_add NegInf _ = NegInf"
| "f64_add _ NegInf = NegInf"

definition f64_sub :: "float64 \<Rightarrow> float64 \<Rightarrow> float64" where
  "f64_sub x y = f64_add x (f64_neg y)"

definition signed_inf :: "bool \<Rightarrow> float64" where
  "signed_inf negative = (if negative then NegInf else PosInf)"

fun f64_mul :: "float64 \<Rightarrow> float64 \<Rightarrow> float64" where
  "f64_mul (Finite a) (Finite b) = rnd (a * b)"
| "f64_mul NaN _ = NaN"
| "f64_mul _ NaN = NaN"
| "f64_mul (Finite a) y = (if a = 0 then NaN else signed_inf ((a < 0) \<noteq> (y = NegInf)))"
| "f64_mul x (Finite b) = (if b = 0 then NaN else signed_inf ((b < 0) \<noteq> (x = NegInf)))"
| "f64_mul x y = signed_inf ((x = NegInf) \<noteq> (y = NegInf))"

fun f64_div :: "float64 \<Rightarrow> float64 \<Rightarrow> float64" where
  "f64_div (Finite a) (Finite b) =
     (if b = 0 then (if a = 0 then NaN else signed_inf (a < 0)) else rnd (a / b))"
| "f64_div NaN _ = NaN"
| "f64_div _ NaN = NaN"
| "f64_div (Finite a) _ = Finite 0"
| "f64_div x (Finite b) = signed_inf ((b < 0) \<noteq> (x = NegInf))"
| "f64_div _ _ = NaN"

text \<open>
  \<^verbatim>\<open>math.Min\<close>, \<^verbatim>\<open>math.Max\<close> and \<^verbatim>\<open>math.Floor\<close> with the special cases of Go's
  documentation, in its order: an infinity of the matching sign wins over NaN.
\<close>

fun math_Min :: "float64 \<Rightarrow> float64 \<Rightarrow> float64" where
  "math_Min NegInf _ = NegInf"
| "math_Min _ NegInf = NegInf"
| "math_Min NaN _ = NaN"
| "math_Min _ NaN = NaN"
| "math_Min PosInf y = y"
| "math_Min x PosInf = x"
| "math_Min (Finite a) (Finite b) = Finite (min a b)"

fun math_Max :: "float64 \<Rightarrow> float64 \<Rightarrow> float64" where
  "math_Max PosInf _ = PosInf"
| "math_Max _ PosInf = PosInf"
| "math_Max NaN _ = NaN"
| "math_Max _ NaN = NaN"
| "math_Max NegInf y = y"
| "math_Max x NegInf = x"
| "math_Max (Finite a) (Finite b) = Finite (max a b)"

definition math_Floor :: "float64 \<Rightarrow> float64" where
  "math_Floor x = (case x of Finite a \<Rightarrow> Finite (of_int \<lfloor>a\<rfloor>) | _ \<Rightarrow> x)"

text \<open>
  Conversions. \<^verbatim>\<open>float64(n)\<close> rounds the integer. \<^verbatim>\<open>int(f)\<close> and \<^verbatim>\<open>uint8(f)\<close> discard
  the fraction; where the value does not fit (NaN, an infinity, a value out of range) Go
  leaves the result to the implementation, and the model follows the gc compiler on
  amd64: the conversion instruction returns the most negative integer of its width (64
  bits for \<^verbatim>\<open>int\<close>, 32 bits for the narrow types), of which \<^verbatim>\<open>uint8\<close> keeps the low
  byte, that is 0.
\<close>

definition float64_of_int :: "int \<Rightarrow> float64" where
  "float64_of_int n = rnd (of_int n)"

definition float64_of_uint8 :: "uint8 \<Rightarrow> float64" where
  "float64_of_uint8 b = rnd (of_int (uint b))"

definition trunc :: "rat \<Rightarrow> int" where
  "trunc q = (if 0 \<le> q then \<lfloor>q\<rfloor> else \<lceil>q\<rceil>)"

definition int_of_float64 :: "float64 \<Rightarrow> int" where
  "int_of_float64 x = (case x of
       Finite q \<Rightarrow> (if - (2 ^ 63) \<le> trunc q \<and> trunc q < 2 ^ 63 then trunc q else - (2 ^ 63))
     | _ \<Rightarrow> - (2 ^ 63))"

definition uint8_of_float64 :: "float64 \<Rightarrow> uint8" where
  "uint8_of_float64 x = (case x of
       Finite q \<Rightarrow> (if - (2 ^ 31) \<le> trunc q \<and> trunc q < 2 ^ 31 then word_of_int (trunc q) else 0)
     | _ \<Rightarrow> 0)"

subsection \<open>Points and rectangles of package image\<close>

record point =
  X :: int
  Y :: int

record rectangle =
  Min_pt :: point
  Max_pt :: point

definition ZP :: point where
  "ZP = \<lparr>X = 0, Y = 0\<rparr>"

definition ZR :: rectangle where
  "ZR = \<lparr>Min_pt = ZP, Max_pt = ZP\<rparr>"

definition point_Add :: "point \<Rightarrow> point \<Rightarrow> point" where
  "point_Add p q = \<lparr>X = X p + X q, Y = Y p + Y q\<rparr>"

definition point_Sub :: "point \<Rightarrow> point \<Rightarrow> point" where
  "point_Sub p q = \<lparr>X = X p - X q, Y = Y p - Y q\<rparr>"

definition Dx :: "rectangle \<Rightarrow> int" where
  "Dx r = X (Max_pt r) - X (Min_pt r)"

definition Dy :: "rectangle \<Rightarrow> int" where
  "Dy r = Y (Max_pt r) - Y (Min_pt r)"

definition Size :: "rectangle \<Rightarrow> point" where
  "Size r = \<lparr>X = X (Max_pt r) - X (Min_pt r), Y = Y (Max_pt r) - Y (Min_pt r)\<rparr>"

definition Empty :: "rectangle \<Rightarrow> bool" where
  "Empty r \<longleftrightarrow> X (Min_pt r) \<ge> X (Max_pt r) \<or> Y (Min_pt r) \<ge> Y (Max_pt r)"

definition rectangle_Sub :: "rectangle \<Rightarrow> point \<Rightarrow> rectangle" where
  "rectangle_Sub r p =
     \<lparr>Min_pt = \<lparr>X = X (Min_pt r) - X p, Y = Y (Min_pt r) - Y p\<rparr>,
      Max_pt = \<lparr>X = X (Max_pt r) - X p, Y = Y (Max_pt r) - Y p\<rparr>\<rparr>"

definition Intersect :: "rectangle \<Rightarrow> rectangle \<Rightarrow> rectangle" where
  "Intersect r s =
     (let r1 = (if X (Min_pt r) < X (Min_pt s) then r\<lparr>Min_pt := (Min_pt r)\<lparr>X := X (Min_pt s)\<rparr>\<rparr> else r);
          r2 = (if Y (Min_pt r1) < Y (Min_pt s) then r1\<lparr>Min_pt := (Min_pt r1)\<lparr>Y := Y (Min_pt s)\<rparr>\<rparr> else r1);
          r3 = (if X (Max_pt r2) > X (Max_pt s) then r2\<lparr>Max_pt := (Max_pt r2)\<lparr>X := X (Max_pt s)\<rparr>\<rparr> else r2);
          r4 = (if Y (Max_pt r3) > Y (Max_pt s) then r3\<lparr>Max_pt := (Max_pt r3)\<lparr>Y := Y (Max_pt s)\<rparr>\<rparr> else r3)
      in if Empty r4 then ZR else r4)"

definition image_Rect :: "int \<Rightarrow> int \<Rightarrow> int \<Rightarrow> int \<Rightarrow> rectangle" where
  "image_Rect x0 y0 x1 y1 =
     (let (xa, xb) = (if x0 > x1 then (x1, x0) else (x0, x1));
          (ya, yb) = (if y0 > y1 then (y1, y0) else (y0, y1))
      in \<lparr>Min_pt = \<lparr>X = xa, Y = ya\<rparr>, Max_pt = \<lparr>X = xb, Y = yb\<rparr>\<rparr>)"

subsection \<open>Pixel buffers and source images\<close>

text \<open>
  \<^verbatim>\<open>image.NRGBA\<close> is the buffer every operation returns: bytes in row-major order, four
  per pixel. \<^verbatim>\<open>image.NewNRGBA\<close> allocates \<open>4 * Dx * Dy\<close> zero bytes; it is only called
  on rectangles made by \<^verbatim>\<open>image.Rect\<close>, whose sizes are not negative, and its panic for
  a buffer beyond the 64-bit range is outside the model, as all wrap-around is. The zero
  value \<^verbatim>\<open>&image.NRGBA{}\<close> is the empty buffer.
\<close>

record image_NRGBA =
  Pix :: "uint8 list"
  Stride :: int
  Rect :: rectangle

definition NewNRGBA :: "rectangle \<Rightarrow> image_NRGBA" where
  "NewNRGBA r = \<lparr>Pix = replicate (nat (4 * Dx r * Dy r)) 0, Stride = 4 * Dx r, Rect = r\<rparr>"

definition empty_NRGBA :: image_NRGBA where
  "empty_NRGBA = \<lparr>Pix = [], Stride = 0, Rect = ZR\<rparr>"

text \<open>
  An \<^verbatim>\<open>image.Image\<close> argument is any value with bounds and pixels. The model keeps its
  bounds and the non-premultiplied colour of each pixel, addressed by column and row
  counted from the upper left corner of the bounds, which is how the scanner addresses
  them.
\<close>

record color_NRGBA =
  R :: uint8
  G :: uint8
  B :: uint8
  A :: uint8

record image =
  Bounds :: rectangle
  pixel :: "int \<Rightarrow> int \<Rightarrow> color_NRGBA"

definition color_bytes :: "color_NRGBA \<Rightarrow> uint8 list" where
  "color_bytes c = [R c, G c, B c, A c]"

subsection \<open>The scanner and the row executor\<close>

record scanner =
  image_img :: image
  w :: int
  h :: int

text \<open>
  Modelled from the spec: \<^verbatim>\<open>newScanner\<close> and \<^verbatim>\<open>scanner.scan\<close> are not in
  \<^verbatim>\<open>tools.go\<close>. A scanner binds a source image to its width and height;
  \<^verbatim>\<open>scan(x0, y0, x1, y1, out)\<close> fills \<open>out\<close> with the straight RGBA8 bytes of row
  \<open>y0\<close> restricted to the columns from \<open>x0\<close> up to \<open>x1\<close>, four per pixel. Callers only
  read single rows, so \<open>y1\<close> is not used. \<open>scan_into\<close> is the call with the slice
  expression \<^verbatim>\<open>pix[i:j]\<close> as its last argument: the slice bounds are checked as Go checks
  them, then the bytes are copied over that part of the buffer.
\<close>

definition newScanner :: "image \<Rightarrow> scanner" where
  "newScanner img = \<lparr>image_img = img, w = Dx (Bounds img), h = Dy (Bounds img)\<rparr>"

definition scan :: "scanner \<Rightarrow> int \<Rightarrow> int \<Rightarrow> int \<Rightarrow> int \<Rightarrow> uint8 list" where
  "scan s x0 y0 x1 y1 = concat (map (\<lambda>x. color_bytes (pixel (image_img s) x y0)) [x0..x1 - 1])"

definition overwrite :: "uint8 list \<Rightarrow> nat \<Rightarrow> uint8 list \<Rightarrow> uint8 list" where
  "overwrite pix i bs = take i pix @ bs @ drop (i + length bs) pix"

definition scan_into ::
  "scanner \<Rightarrow> int \<Rightarrow> int \<Rightarrow> int \<Rightarrow> int \<Rightarrow> uint8 list \<Rightarrow> int \<Rightarrow> int \<Rightarrow> uint8 list option" where
  "scan_into s x0 y0 x1 y1 pix i j =
     (if 0 \<le> i \<and> i \<le> j \<and> j \<le> int (length pix)
      then Some (overwrite pix (nat i) (take (nat (j - i)) (scan s x0 y0 x1 y1)))
      else None)"

text \<open>
  Modelled from the spec: \<^verbatim>\<open>parallel\<close> is not in \<^verbatim>\<open>tools.go\<close>. It delivers every integer
  of the half-open range to exactly one invocation of the row callback and returns when
  all rows are done. The model runs the rows on one worker, in increasing order, each as
  a transformer of the state the callback closes over; a panic in a row ends the run.
  Interleavings of several workers are not modelled.
\<close>

fun for_rows :: "(int \<Rightarrow> 's \<Rightarrow> 's option) \<Rightarrow> int list \<Rightarrow> 's \<Rightarrow> 's option" where
  "for_rows fn [] s = Some s"
| "for_rows fn (y # ys) s = (case fn y s of None \<Rightarrow> None | Some s' \<Rightarrow> for_rows fn ys s')"

definition parallel :: "int \<Rightarrow> int \<Rightarrow> (int \<Rightarrow> 's \<Rightarrow> 's option) \<Rightarrow> 's \<Rightarrow> 's option" where
  "parallel start stop fn s = for_rows fn [start..stop - 1] s"

section \<open>The operations of tools.go\<close>

subsection \<open>OpaqueBounds\<close>

text \<open>
  The column loop of one row: \<open>i\<close> is the running offset into \<open>dst.Pix\<close>, the state is
  the shared rectangle \<open>out\<close> and the flag \<open>first\<close>. The alpha byte is read, then \<open>i\<close>
  advances. Both guarded blocks run under the mutex, one after the other.
\<close>

fun OpaqueBounds_cols ::
  "uint8 \<Rightarrow> uint8 list \<Rightarrow> int \<Rightarrow> int list \<Rightarrow> int \<Rightarrow> rectangle \<times> bool \<Rightarrow> (rectangle \<times> bool) option" where
  "OpaqueBounds_cols threshold pix y [] i (out, first) = Some (out, first)"
| "OpaqueBounds_cols threshold pix y (x # xs) i (out, first) =
     (if 0 \<le> i + 3 \<and> i + 3 < int (length pix) then
        let a = pix ! nat (i + 3);
            (out1, first1) =
              (if threshold < a \<and> first
               then (\<lparr>Min_pt = \<lparr>X = x, Y = y\<rparr>, Max_pt = \<lparr>X = x, Y = y\<rparr>\<rparr>, False)
               else (out, first));
            out2 =
              (if threshold < a \<and> \<not> first1
               then \<lparr>Min_pt =
                       \<lparr>X = int_of_float64 (math_Min (float64_of_int x) (float64_of_int (X (Min_pt out1)))),
                        Y = int_of_float64 (math_Min (float64_of_int y) (float64_of_int (Y (Min_pt out1))))\<rparr>,
                     Max_pt =
                       \<lparr>X = int_of_float64 (math_Max (float64_of_int x) (float64_of_int (X (Max_pt out1)))),
                        Y = int_of_float64 (math_Max (float64_of_int y) (float64_of_int (Y (Max_pt out1))))\<rparr>\<rparr>
               else out1)
        in OpaqueBounds_cols threshold pix y xs (i + 4) (out2, first1)
      else None)"

definition OpaqueBounds_row ::
  "scanner \<Rightarrow> uint8 \<Rightarrow> int \<Rightarrow> int \<Rightarrow> uint8 list \<times> rectangle \<times> bool \<Rightarrow> (uint8 list \<times> rectangle \<times> bool) option" where
  "OpaqueBounds_row src threshold stride y st =
     (case st of (pix, out, first) \<Rightarrow>
        let i = y * stride in
        case scan_into src 0 y (w src) (y + 1) pix i (i + w src * 4) of
          None \<Rightarrow> None
        | Some pix' \<Rightarrow>
            (case OpaqueBounds_cols threshold pix' y [0..w src - 1] i (out, first) of
               None \<Rightarrow> None
             | Some (out', first') \<Rightarrow> Some (pix', out', first')))"

definition OpaqueBounds :: "image \<Rightarrow> uint8 \<Rightarrow> rectangle option" where
  "OpaqueBounds img threshold =
     (let src = newScanner img;
          dst = NewNRGBA (image_Rect 0 0 (w src) (h src))
      in case parallel 0 (h src) (OpaqueBounds_row src threshold (Stride dst)) (Pix dst, ZR, True) of
           None \<Rightarrow> None
         | Some (pix, out, first) \<Rightarrow> Some out)"

subsection \<open>OpaquePolygon\<close>

text \<open>
  \<open>pointsLeft\<close> and \<open>pointsRight\<close> are the two halves of \<open>out\<close>, so \<open>pointsRight[k]\<close>
  is \<open>out[n + k]\<close> and \<open>pointsLeft[n - 1 - k]\<close> is \<open>out[n - 1 - k]\<close>; both indices are in
  range for every row \<open>k\<close> the executor delivers. In the column loop \<open>i\<close> advances before
  the alpha byte is read.
\<close>

fun OpaquePolygon_cols ::
  "uint8 \<Rightarrow> uint8 list \<Rightarrow> int \<Rightarrow> int \<Rightarrow> int \<Rightarrow> int list \<Rightarrow> int \<Rightarrow> bool \<times> point list \<Rightarrow> point list option" where
  "OpaquePolygon_cols threshold pix n k y [] i (foundLeft, out) = Some out"
| "OpaquePolygon_cols threshold pix n k y (x # xs) i (foundLeft, out) =
     (let i' = i + 4 in
      if 0 \<le> i' + 3 \<and> i' + 3 < int (length pix) then
        let a = pix ! nat (i' + 3) in
        if a \<le> threshold then OpaquePolygon_cols threshold pix n k y xs i' (foundLeft, out)
        else
          let out1 = out[nat (n + k) := \<lparr>X = x, Y = y\<rparr>] in
          if foundLeft then OpaquePolygon_cols threshold pix n k y xs i' (foundLeft, out1)
          else OpaquePolygon_cols threshold pix n k y xs i'
                 (True, out1[nat (n - 1 - k) := \<lparr>X = x, Y = y\<rparr>])
      else None)"

definition OpaquePolygon_row ::
  "scanner \<Rightarrow> uint8 \<Rightarrow> rectangle \<Rightarrow> int \<Rightarrow> float64 \<Rightarrow> int \<Rightarrow> int \<Rightarrow> uint8 list \<times> point list \<Rightarrow> (uint8 list \<times> point list) option" where
  "OpaquePolygon_row src threshold bounds n yStep wd k st =
     (case st of (pix, out) \<Rightarrow>
        let y = int_of_float64 (math_Floor
                  (f64_add (float64_of_int (Y (Min_pt bounds))) (f64_mul (float64_of_int k) yStep)));
            i = (y - Y (Min_pt bounds)) * 4 * wd
        in case scan_into src (X (Min_pt bounds)) y (X (Max_pt bounds)) (y + 1) pix i (i + wd * 4) of
             None \<Rightarrow> None
           | Some pix' \<Rightarrow>
               (case OpaquePolygon_cols threshold pix' n k y
                       [X (Min_pt bounds)..X (Max_pt bounds) - 1] i (False, out) of
                  None \<Rightarrow> None
                | Some out' \<Rightarrow> Some (pix', out')))"

definition OpaquePolygon :: "image \<Rightarrow> int \<Rightarrow> uint8 \<Rightarrow> point list option" where
  "OpaquePolygon img n threshold =
     (case OpaqueBounds img threshold of
        None \<Rightarrow> None
      | Some bounds \<Rightarrow>
          let src = newScanner img;
              dst = NewNRGBA (image_Rect 0 0 (w src) (h src))
          in if 2 * n < 0 then None
             else
               let out = replicate (nat (2 * n)) ZP;
                   yStep = f64_div (float64_of_int (Dy bounds - 1)) (float64_of_int (n - 1));
                   wd = Dx bounds
               in case parallel 0 n (OpaquePolygon_row src threshold bounds n yStep wd) (Pix dst, out) of
                    None \<Rightarrow> None
                  | Some (pix, out') \<Rightarrow> Some out')"

subsection \<open>OpaqueArea\<close>

fun OpaqueArea_cols :: "uint8 \<Rightarrow> uint8 list \<Rightarrow> int list \<Rightarrow> int \<Rightarrow> int \<Rightarrow> int option" where
  "OpaqueArea_cols threshold pix [] i numPixelsOpaque = Some numPixelsOpaque"
| "OpaqueArea_cols threshold pix (x # xs) i numPixelsOpaque =
     (let i' = i + 4 in
      if 0 \<le> i' + 3 \<and> i' + 3 < int (length pix) then
        OpaqueArea_cols threshold pix xs i'
          (if threshold < pix ! nat (i' + 3) then numPixelsOpaque + 1 else numPixelsOpaque)
      else None)"

definition OpaqueArea_row ::
  "scanner \<Rightarrow> uint8 \<Rightarrow> int \<Rightarrow> uint8 list \<times> int \<Rightarrow> (uint8 list \<times> int) option" where
  "OpaqueArea_row src threshold y st =
     (case st of (pix, numPixelsOpaque) \<Rightarrow>
        let i = y * 4 in
        case scan_into src 0 y (w src) (y + 1) pix i (i + w src * 4) of
          None \<Rightarrow> None
        | Some pix' \<Rightarrow>
            (case OpaqueArea_cols threshold pix' [0..w src - 1] i numPixelsOpaque of
               None \<Rightarrow> None
             | Some c \<Rightarrow> Some (pix', c)))"

definition OpaqueArea :: "image \<Rightarrow> uint8 \<Rightarrow> int option" where
  "OpaqueArea img threshold =
     (let src = newScanner img;
          dst = NewNRGBA (image_Rect 0 0 (w src) (h src))
      in case parallel 0 (h src) (OpaqueArea_row src threshold) (Pix dst, 0) of
           None \<Rightarrow> None
         | Some (pix, numPixelsOpaque) \<Rightarrow> Some numPixelsOpaque)"

subsection \<open>Clone, Crop and Paste\<close>

text \<open>
  The row callbacks of these operations only write \<open>dst.Pix\<close>, so the state of the row
  executor is that byte list; \<open>Stride\<close> and \<open>Rect\<close> of the buffer never change.
\<close>

definition Clone :: "image \<Rightarrow> image_NRGBA option" where
  "Clone img =
     (let src = newScanner img;
          dst = NewNRGBA (image_Rect 0 0 (w src) (h src));
          size = w src * 4
      in map_option (\<lambda>pix. dst\<lparr>Pix := pix\<rparr>)
           (parallel 0 (h src)
              (\<lambda>y pix. let i = y * Stride dst in scan_into src 0 y (w src) (y + 1) pix i (i + size))
              (Pix dst)))"

definition Crop :: "image \<Rightarrow> rectangle \<Rightarrow> image_NRGBA option" where
  "Crop img rect =
     (let r = rectangle_Sub (Intersect rect (Bounds img)) (Min_pt (Bounds img)) in
      if Empty r then Some empty_NRGBA
      else
        let src = newScanner img;
            dst = NewNRGBA (image_Rect 0 0 (Dx r) (Dy r));
            rowSize = Dx r * 4
        in map_option (\<lambda>pix. dst\<lparr>Pix := pix\<rparr>)
             (parallel (Y (Min_pt r)) (Y (Max_pt r))
                (\<lambda>y pix. let i = (y - Y (Min_pt r)) * Stride dst
                          in scan_into src (X (Min_pt r)) y (X (Max_pt r)) (y + 1) pix i (i + rowSize))
                (Pix dst)))"

definition Paste_row ::
  "scanner \<Rightarrow> int \<Rightarrow> rectangle \<Rightarrow> rectangle \<Rightarrow> int \<Rightarrow> uint8 list \<Rightarrow> uint8 list option" where
  "Paste_row src stride pasteRect interRect y pix =
     (let x1 = X (Min_pt interRect) - X (Min_pt pasteRect);
          x2 = X (Max_pt interRect) - X (Min_pt pasteRect);
          y1 = y - Y (Min_pt pasteRect);
          y2 = y1 + 1;
          i1 = y * stride + X (Min_pt interRect) * 4;
          i2 = i1 + Dx interRect * 4
      in scan_into src x1 y1 x2 y2 pix i1 i2)"

definition Paste :: "image \<Rightarrow> image \<Rightarrow> point \<Rightarrow> image_NRGBA option" where
  "Paste background img pos =
     (case Clone background of
        None \<Rightarrow> None
      | Some dst \<Rightarrow>
          let pos' = point_Sub pos (Min_pt (Bounds background));
              pasteRect = \<lparr>Min_pt = pos', Max_pt = point_Add pos' (Size (Bounds img))\<rparr>;
              interRect = Intersect pasteRect (Rect dst)
          in if Empty interRect then Some dst
             else
               let src = newScanner img
               in map_option (\<lambda>pix. dst\<lparr>Pix := pix\<rparr>)
                    (parallel (Y (Min_pt interRect)) (Y (Max_pt interRect))
                       (Paste_row src (Stride dst) pasteRect interRect) (Pix dst)))"

subsection \<open>Overlay\<close>

text \<open>
  The arithmetic of one pixel of \<^verbatim>\<open>Overlay\<close>'s inner loop: the two pixels widened to
  \<^verbatim>\<open>float64\<close>, the two coefficients normalised by their sum, the four channels converted
  back with \<^verbatim>\<open>uint8(...)\<close>. Each operation is rounded on its own, as the gc compiler
  does on amd64 (no fused multiply-add).
\<close>

definition Overlay_pixel ::
  "float64 \<Rightarrow> uint8 \<Rightarrow> uint8 \<Rightarrow> uint8 \<Rightarrow> uint8 \<Rightarrow> uint8 \<Rightarrow> uint8 \<Rightarrow> uint8 \<Rightarrow> uint8 \<Rightarrow> uint8 list" where
  "Overlay_pixel opacity p0 p1 p2 p3 s0 s1 s2 s3 =
     (let r1 = float64_of_uint8 p0; g1 = float64_of_uint8 p1;
          b1 = float64_of_uint8 p2; a1 = float64_of_uint8 p3;
          r2 = float64_of_uint8 s0; g2 = float64_of_uint8 s1;
          b2 = float64_of_uint8 s2; a2 = float64_of_uint8 s3;
          coef2 = f64_div (f64_mul opacity a2) (Finite 255);
          coef1 = f64_div (f64_mul (f64_sub (Finite 1) coef2) a1) (Finite 255);
          coefSum = f64_add coef1 coef2;
          coef1' = f64_div coef1 coefSum;
          coef2' = f64_div coef2 coefSum
      in [uint8_of_float64 (f64_add (f64_mul r1 coef1') (f64_mul r2 coef2')),
          uint8_of_float64 (f64_add (f64_mul g1 coef1') (f64_mul g2 coef2')),
          uint8_of_float64 (f64_add (f64_mul b1 coef1') (f64_mul b2 coef2')),
          uint8_of_float64 (math_Min
            (f64_add a1 (f64_div (f64_mul (f64_mul a2 opacity) (f64_sub (Finite 255) a1)) (Finite 255)))
            (Finite 255))])"

fun Overlay_cols ::
  "float64 \<Rightarrow> uint8 list \<Rightarrow> int list \<Rightarrow> int \<Rightarrow> int \<Rightarrow> uint8 list \<Rightarrow> uint8 list option" where
  "Overlay_cols opacity scanLine [] i j pix = Some pix"
| "Overlay_cols opacity scanLine (x # xs) i j pix =
     (if 0 \<le> i \<and> i + 3 < int (length pix) \<and> 0 \<le> j \<and> j + 3 < int (length scanLine) then
        let c = Overlay_pixel opacity
                  (pix ! nat i) (pix ! nat (i + 1)) (pix ! nat (i + 2)) (pix ! nat (i + 3))
                  (scanLine ! nat j) (scanLine ! nat (j + 1)) (scanLine ! nat (j + 2))
                  (scanLine ! nat (j + 3))
        in Overlay_cols opacity scanLine xs (i + 4) (j + 4)
             (pix[nat i := c ! 0, nat (i + 1) := c ! 1, nat (i + 2) := c ! 2, nat (i + 3) := c ! 3])
      else None)"

text \<open>
  A row of \<^verbatim>\<open>Overlay\<close>. The worker's \<open>scanLine\<close> buffer is allocated once and reused by
  every row, so it is part of the state.
\<close>

definition Overlay_row ::
  "scanner \<Rightarrow> float64 \<Rightarrow> int \<Rightarrow> rectangle \<Rightarrow> rectangle \<Rightarrow> int \<Rightarrow> uint8 list \<times> uint8 list \<Rightarrow> (uint8 list \<times> uint8 list) option" where
  "Overlay_row src opacity stride pasteRect interRect y st =
     (case st of (pix, scanLine) \<Rightarrow>
        let x1 = X (Min_pt interRect) - X (Min_pt pasteRect);
            x2 = X (Max_pt interRect) - X (Min_pt pasteRect);
            y1 = y - Y (Min_pt pasteRect);
            y2 = y1 + 1
        in case scan_into src x1 y1 x2 y2 scanLine 0 (int (length scanLine)) of
             None \<Rightarrow> None
           | Some scanLine' \<Rightarrow>
               (case Overlay_cols opacity scanLine'
                       [X (Min_pt interRect)..X (Max_pt interRect) - 1]
                       (y * stride + X (Min_pt interRect) * 4) 0 pix of
                  None \<Rightarrow> None
                | Some pix' \<Rightarrow> Some (pix', scanLine')))"

definition Overlay :: "image \<Rightarrow> image \<Rightarrow> point \<Rightarrow> float64 \<Rightarrow> image_NRGBA option" where
  "Overlay background img pos opacity =
     (let opacity' = math_Min (math_Max opacity (Finite 0)) (Finite 1) in
      case Clone background of
        None \<Rightarrow> None
      | Some dst \<Rightarrow>
          let pos' = point_Sub pos (Min_pt (Bounds background));
              pasteRect = \<lparr>Min_pt = pos', Max_pt = point_Add pos' (Size (Bounds img))\<rparr>;
              interRect = Intersect pasteRect (Rect dst)
          in if Empty interRect then Some dst
             else
               let src = newScanner img
               in if Dx interRect * 4 < 0 then None
                  else
                    map_option (\<lambda>st. dst\<lparr>Pix := fst st\<rparr>)
                      (parallel (Y (Min_pt interRect)) (Y (Max_pt interRect))
                         (Overlay_row src opacity' (Stride dst) pasteRect interRect)
                         (Pix dst, replicate (nat (Dx interRect * 4)) 0)))"

subsection \<open>The alpha operators\<close>

definition OpMinAlpha ::
  "float64 \<Rightarrow> float64 \<Rightarrow> float64 \<Rightarrow> float64 \<Rightarrow> float64 \<Rightarrow> float64 \<Rightarrow> float64 \<Rightarrow> float64
     \<Rightarrow> float64 \<times> float64 \<times> float64 \<times> float64" where
  "OpMinAlpha r1 g1 b1 a1 r2 g2 b2 a2 = (r1, g1, b1, math_Min a1 a2)"

definition OpMaxAlpha ::
  "float64 \<Rightarrow> float64 \<Rightarrow> float64 \<Rightarrow> float64 \<Rightarrow> float64 \<Rightarrow> float64 \<Rightarrow> float64 \<Rightarrow> float64
     \<Rightarrow> float64 \<times> float64 \<times> float64 \<times> float64" where
  "OpMaxAlpha r1 g1 b1 a1 r2 g2 b2 a2 = (Finite 255, Finite 255, Finite 255, math_Max a1 a2)"

section \<open>Descriptions of buffers used in the statements\<close>

text \<open>
  \<^verbatim>\<open>Point.In\<close> of package image, the bytes of a source pixel, and the buffer contents
  that hold, row by row, the four bytes \<open>F x y\<close> for every pixel of a rectangle.
  \<open>blend_bytes\<close> applies the pixel arithmetic of \<^verbatim>\<open>Overlay\<close> to two runs of pixels.
\<close>

definition point_In :: "point \<Rightarrow> rectangle \<Rightarrow> bool" where
  "point_In p r \<longleftrightarrow>
     X (Min_pt r) \<le> X p \<and> X p < X (Max_pt r) \<and> Y (Min_pt r) \<le> Y p \<and> Y p < Y (Max_pt r)"

definition pixel_bytes :: "image \<Rightarrow> int \<Rightarrow> int \<Rightarrow> uint8 list" where
  "pixel_bytes img x y = color_bytes (pixel img x y)"

definition segment :: "(int \<Rightarrow> int \<Rightarrow> uint8 list) \<Rightarrow> int \<Rightarrow> int \<Rightarrow> int \<Rightarrow> uint8 list" where
  "segment F a b y = concat (map (\<lambda>x. F x y) [a..b - 1])"

definition region :: "(int \<Rightarrow> int \<Rightarrow> uint8 list) \<Rightarrow> rectangle \<Rightarrow> uint8 list" where
  "region F r =
     concat (map (segment F (X (Min_pt r)) (X (Max_pt r))) [Y (Min_pt r)..Y (Max_pt r) - 1])"

fun blend_bytes :: "float64 \<Rightarrow> uint8 list \<Rightarrow> uint8 list \<Rightarrow> uint8 list" where
  "blend_bytes opacity (p0 # p1 # p2 # p3 # ps) (s0 # s1 # s2 # s3 # ss) =
     Overlay_pixel opacity p0 p1 p2 p3 s0 s1 s2 s3 @ blend_bytes opacity ps ss"
| "blend_bytes opacity ps ss = []"

text \<open>
  The rectangle of the buffer \<^verbatim>\<open>Clone\<close> returns, the paste rectangle and its part inside
  the buffer as \<^verbatim>\<open>Paste\<close> and \<^verbatim>\<open>Overlay\<close> compute them (\<open>pasteRect\<close> and \<open>interRect\<close>
  in the source), and the bytes of the pixel in column \<open>x\<close> of row \<open>y\<close> of a pasted and
  of an overlaid image: inside the overlap the image's pixel, or the blend of both pixels,
  and the background's pixel elsewhere.
\<close>

definition buffer_rect :: "image \<Rightarrow> rectangle" where
  "buffer_rect img =
     \<lparr>Min_pt = \<lparr>X = 0, Y = 0\<rparr>, Max_pt = \<lparr>X = Dx (Bounds img), Y = Dy (Bounds img)\<rparr>\<rparr>"

definition paste_rect :: "image \<Rightarrow> image \<Rightarrow> point \<Rightarrow> rectangle" where
  "paste_rect background img pos =
     (let pos' = point_Sub pos (Min_pt (Bounds background))
      in \<lparr>Min_pt = pos', Max_pt = point_Add pos' (Size (Bounds img))\<rparr>)"

definition overlap :: "image \<Rightarrow> image \<Rightarrow> point \<Rightarrow> rectangle" where
  "overlap background img pos = Intersect (paste_rect background img pos) (buffer_rect background)"

definition pasted :: "image \<Rightarrow> image \<Rightarrow> point \<Rightarrow> int \<Rightarrow> int \<Rightarrow> uint8 list" where
  "pasted background img pos x y =
     (if point_In \<lparr>X = x, Y = y\<rparr> (overlap background img pos)
      then pixel_bytes img (x - X (Min_pt (paste_rect background img pos)))
             (y - Y (Min_pt (paste_rect background img pos)))
      else pixel_bytes background x y)"

definition overlaid :: "float64 \<Rightarrow> image \<Rightarrow> image \<Rightarrow> point \<Rightarrow> int \<Rightarrow> int \<Rightarrow> uint8 list" where
  "overlaid opacity background img pos x y =
     (if point_In \<lparr>X = x, Y = y\<rparr> (overlap background img pos)
      then blend_bytes opacity (pixel_bytes background x y)
             (pixel_bytes img (x - X (Min_pt (paste_rect background img pos)))
                (y - Y (Min_pt (paste_rect background img pos))))
      else pixel_bytes background x y)"

text \<open>
  The state of \<^verbatim>\<open>OpaqueBounds\<close> while it runs over an image of the given width and height:
  either nothing was found and \<open>out\<close> is still the zero rectangle, or \<open>out\<close> spans pixels
  of the image, with an inclusive maximum.
\<close>

definition found_within :: "int \<Rightarrow> int \<Rightarrow> rectangle \<times> bool \<Rightarrow> bool" where
  "found_within wd ht st =
     (case st of (out, first) \<Rightarrow>
        if first then out = ZR
        else 0 \<le> X (Min_pt out) \<and> X (Min_pt out) \<le> X (Max_pt out) \<and> X (Max_pt out) < wd
           \<and> 0 \<le> Y (Min_pt out) \<and> Y (Min_pt out) \<le> Y (Max_pt out) \<and> Y (Max_pt out) < ht)"

section \<open>Inputs used in the statements\<close>

text \<open>
  A rectangle is well formed when its minimum is not beyond its maximum; the bounds of
  every image are.
\<close>

definition well_formed :: "rectangle \<Rightarrow> bool" where
  "well_formed r \<longleftrightarrow> X (Min_pt r) \<le> X (Max_pt r) \<and> Y (Min_pt r) \<le> Y (Max_pt r)"

definition rgba :: "uint8 \<Rightarrow> uint8 \<Rightarrow> uint8 \<Rightarrow> uint8 \<Rightarrow> color_NRGBA" where
  "rgba r g b a = \<lparr>R = r, G = g, B = b, A = a\<rparr>"

definition image_of :: "int \<Rightarrow> int \<Rightarrow> (int \<Rightarrow> int \<Rightarrow> color_NRGBA) \<Rightarrow> image" where
  "image_of wd ht f =
     \<lparr>Bounds = \<lparr>Min_pt = \<lparr>X = 0, Y = 0\<rparr>, Max_pt = \<lparr>X = wd, Y = ht\<rparr>\<rparr>, pixel = f\<rparr>"

text \<open>A transparent 4 by 4 image, and the same with one opaque pixel in column 1 of row 2.\<close>

definition transparent_4x4 :: image where
  "transparent_4x4 = image_of 4 4 (\<lambda>x y. rgba 0 0 0 0)"

definition single_pixel_4x4 :: image where
  "single_pixel_4x4 = image_of 4 4 (\<lambda>x y. if x = 1 \<and> y = 2 then rgba 0 0 0 255 else rgba 0 0 0 0)"

text \<open>
  Opaque images, a 3 by 1 transparent image, a 3 by 3 image whose lower right 2 by 2
  block is opaque, and a 2 by 2 image whose top row is opaque.
\<close>

definition opaque_2x2 :: image where
  "opaque_2x2 = image_of 2 2 (\<lambda>x y. rgba 1 2 3 255)"

definition opaque_4x4 :: image where
  "opaque_4x4 = image_of 4 4 (\<lambda>x y. rgba 1 2 3 255)"

definition transparent_3x1 :: image where
  "transparent_3x1 = image_of 3 1 (\<lambda>x y. rgba 0 0 0 0)"

definition block_3x3 :: image where
  "block_3x3 = image_of 3 3 (\<lambda>x y. if 1 \<le> x \<and> 1 \<le> y then rgba 1 2 3 255 else rgba 0 0 0 0)"

definition top_row_2x2 :: image where
  "top_row_2x2 = image_of 2 2 (\<lambda>x y. if y = 0 then rgba 1 2 3 255 else rgba 0 0 0 0)"

text \<open>
  A 2 by 2 background whose pixels are fully transparent but carry colour, an opaque
  single pixel, and a 2 by 2 fully transparent foreground.
\<close>

definition ghost_2x2 :: image where
  "ghost_2x2 = image_of 2 2 (\<lambda>x y. rgba 10 20 30 0)"

definition red_1x1 :: image where
  "red_1x1 = image_of 1 1 (\<lambda>x y. rgba 200 100 50 255)"

definition clear_2x2 :: image where
  "clear_2x2 = image_of 2 2 (\<lambda>x y. rgba 5 6 7 0)"

section \<open>Properties of the float64 model\<close>

subsection \<open>Rounding\<close>

lemma round_even_of_int [simp]: "round_even (of_int k) = k"
  by (simp add: round_even_def)

lemma round_even_lower: "of_int a \<le> q \<Longrightarrow> a \<le> round_even q"
proof -
  assume "of_int a \<le> q"
  then have "a \<le> \<lfloor>q\<rfloor>" by (simp add: le_floor_iff)
  then show ?thesis unfolding round_even_def Let_def by auto
qed

lemma round_even_upper: "q \<le> of_int b \<Longrightarrow> round_even q \<le> b"
proof -
  assume h: "q \<le> of_int b"
  show ?thesis
  proof (cases "q = of_int b")
    case True then show ?thesis by simp
  next
    case False
    with h have "q < of_int b" by simp
    then have "\<lfloor>q\<rfloor> < b" by (simp add: floor_less_iff)
    then show ?thesis unfolding round_even_def Let_def by auto
  qed
qed

lemma pow2_int_bounds:
  fixes n :: int and b :: int
  assumes "0 < n"
  shows "(2::rat) powi (bitlen n - 1) \<le> of_int n" and "of_int n < (2::rat) powi (bitlen n)"
proof -
  have b1: "1 \<le> bitlen n" using assms by (auto simp: bitlen_alt_def)
  from bitlen_bounds [OF assms] have lo: "2 ^ nat (bitlen n - 1) \<le> n" and hi: "n < 2 ^ nat (bitlen n)"
    by auto
  have "(2::rat) powi (bitlen n - 1) = 2 ^ nat (bitlen n - 1)"
    using b1 by (simp add: power_int_def)
  also have "\<dots> = of_int (2 ^ nat (bitlen n - 1))" by simp
  also have "\<dots> \<le> of_int n" using lo by (simp only: of_int_le_iff)
  finally show "(2::rat) powi (bitlen n - 1) \<le> of_int n" .
  have "of_int n < (of_int (2 ^ nat (bitlen n)) :: rat)" using hi by (simp only: of_int_less_iff)
  also have "\<dots> = 2 powi (bitlen n)" using b1 by (simp add: power_int_def)
  finally show "of_int n < (2::rat) powi (bitlen n)" .
qed

lemma ilog2_bounds:
  assumes "0 < q"
  shows "2 powi (ilog2 q) \<le> q" and "q < 2 powi (ilog2 q + 1)"
proof -
  have "2 powi (ilog2 q) \<le> q \<and> q < 2 powi (ilog2 q + 1)"
  proof (cases "1 \<le> q")
    case True
    then have n: "0 < \<lfloor>q\<rfloor>" by simp
    have e: "ilog2 q = bitlen \<lfloor>q\<rfloor> - 1" using True by (simp add: ilog2_def)
    have "2 powi (bitlen \<lfloor>q\<rfloor> - 1) \<le> (of_int \<lfloor>q\<rfloor> :: rat)" by (rule pow2_int_bounds(1) [OF n])
    also have "\<dots> \<le> q" by simp
    finally have lo: "2 powi (ilog2 q) \<le> q" by (simp add: e)
    have "\<lfloor>q\<rfloor> + 1 \<le> 2 ^ nat (bitlen \<lfloor>q\<rfloor>)" using bitlen_bounds [OF n] by simp
    then have "(of_int (\<lfloor>q\<rfloor> + 1) :: rat) \<le> of_int (2 ^ nat (bitlen \<lfloor>q\<rfloor>))"
      by (simp only: of_int_le_iff)
    moreover have "q < of_int (\<lfloor>q\<rfloor> + 1)" by linarith
    moreover have "0 \<le> bitlen \<lfloor>q\<rfloor>" by (rule bitlen_nonneg)
    ultimately have "q < 2 powi (bitlen \<lfloor>q\<rfloor>)" by (simp add: power_int_def)
    then show ?thesis using lo by (simp add: e)
  next
    case False
    then have q1: "q < 1" by simp
    define m where "m = \<lceil>1 / q\<rceil>"
    have "1 < 1 / q" using assms q1 by (simp add: field_simps)
    then have m2: "0 < m - 1" unfolding m_def by (simp add: less_ceiling_iff)
    have e: "ilog2 q = - bitlen (m - 1)" using False by (simp add: ilog2_def m_def)
    have up: "1 / q \<le> of_int m" unfolding m_def by simp
    have lowr: "of_int (m - 1) < 1 / q" unfolding m_def
      by (metis ceiling_diff_one ceiling_less_iff linorder_not_le order_refl of_int_diff of_int_1 less_ceiling_iff)
    have "of_int m \<le> (of_int (2 ^ nat (bitlen (m - 1))) :: rat)"
      using bitlen_bounds [OF m2] by (simp only: of_int_le_iff) simp
    also have "\<dots> = 2 powi (bitlen (m - 1))" using bitlen_nonneg [of "m - 1"] by (simp add: power_int_def)
    finally have "1 / q \<le> 2 powi (bitlen (m - 1))" using up by simp
    then have lo: "2 powi (- bitlen (m - 1)) \<le> q"
      using assms by (simp add: power_int_minus field_simps)
    have "2 powi (bitlen (m - 1) - 1) \<le> (of_int (m - 1) :: rat)" by (rule pow2_int_bounds(1) [OF m2])
    also have "\<dots> < 1 / q" by (rule lowr)
    finally have "q < 1 / 2 powi (bitlen (m - 1) - 1)"
      using assms by (simp add: field_simps)
    also have "\<dots> = 2 powi (- bitlen (m - 1) + 1)"
      by (simp add: power_int_minus_divide [symmetric])
    finally show ?thesis using lo by (simp add: e)
  qed
  then show "2 powi (ilog2 q) \<le> q" and "q < 2 powi (ilog2 q + 1)" by auto
qed

lemma pow2_less_cancel:
  assumes "(2::rat) powi a < 2 powi b"
  shows "a < b"
proof (rule ccontr)
  assume "\<not> a < b"
  then have "b \<le> a" by simp
  then have "(2::rat) powi b \<le> 2 powi a" by (rule power_int_increasing) simp
  with assms show False by simp
qed

lemma ilog2_unique:
  assumes "0 < q" "2 powi e \<le> q" "q < 2 powi (e + 1)"
  shows "ilog2 q = e"
proof -
  have "(2::rat) powi e < 2 powi (ilog2 q + 1)"
    using assms(2) ilog2_bounds(2) [OF assms(1)] by simp
  then have a: "e < ilog2 q + 1" by (rule pow2_less_cancel)
  have "(2::rat) powi (ilog2 q) < 2 powi (e + 1)"
    using assms(3) ilog2_bounds(1) [OF assms(1)] by simp
  then have "ilog2 q < e + 1" by (rule pow2_less_cancel)
  with a show ?thesis by simp
qed

lemma pow2_split53: "(2::rat) powi (e + 1) = 2 ^ 53 * 2 powi (e - 52)"
  by (simp add: power_int_diff power_int_add)

lemma pow2_split52: "(2::rat) powi e = 2 ^ 52 * 2 powi (e - 52)"
  by (simp add: power_int_diff)

lemma scaled_less_53:
  assumes "0 < q" and "ilog2 q \<le> e"
  shows "q / 2 powi (e - 52) < 2 ^ 53"
proof -
  have "q < 2 powi (ilog2 q + 1)" by (rule ilog2_bounds(2) [OF assms(1)])
  also have "\<dots> \<le> 2 powi (e + 1)" by (rule power_int_increasing) (use assms(2) in simp_all)
  finally have "q < 2 ^ 53 * 2 powi (e - 52)" unfolding pow2_split53 .
  then show ?thesis by (simp only: pos_divide_less_eq zero_less_power_int zero_less_numeral)
qed

lemma rnd_exact:
  assumes "\<bar>q\<bar> / 2 powi (max (ilog2 \<bar>q\<bar>) (- 1022) - 52) = of_int m"
    and "ilog2 \<bar>q\<bar> \<le> 1023"
  shows "rnd q = Finite q"
proof (cases "q = 0")
  case True
  then show ?thesis by (simp add: rnd_def)
next
  case False
  define e where "e = max (ilog2 \<bar>q\<bar>) (- 1022)"
  have e_hi: "\<not> 1023 < e" using assms(2) by (simp add: e_def)
  have sc: "\<bar>q\<bar> / 2 powi (e - 52) = of_int m" using assms(1) by (simp add: e_def)
  have "\<bar>q\<bar> / 2 powi (e - 52) < 2 ^ 53"
    by (rule scaled_less_53) (use False in \<open>simp_all add: e_def\<close>)
  then have "(of_int m :: rat) < of_int (2 ^ 53)" unfolding sc by simp
  then have "m < 2 ^ 53" by (simp only: of_int_less_iff)
  then have m53: "m \<noteq> 2 ^ 53" by simp
  have "of_int m * 2 powi (e - 52) = \<bar>q\<bar>"
    unfolding sc [symmetric] by simp
  moreover have "sgn q * \<bar>q\<bar> = q" by (simp add: sgn_mult_abs)
  ultimately show ?thesis
    using False e_hi m53 unfolding rnd_def Let_def e_def [symmetric] sc by simp
qed

lemma rnd_of_int:
  assumes "\<bar>n\<bar> < 2 ^ 53"
  shows "rnd (of_int n) = Finite (of_int n)"
proof (cases "n = 0")
  case True
  then show ?thesis by (simp add: rnd_def)
next
  case False
  define q :: rat where "q = \<bar>of_int n\<bar>"
  have "1 \<le> \<bar>n\<bar>" using False by simp
  then have "(of_int 1 :: rat) \<le> of_int \<bar>n\<bar>" by (simp only: of_int_le_iff)
  then have q1: "1 \<le> q" by (simp add: q_def)
  have qpos: "0 < q" using q1 by simp
  have "q = of_int \<bar>n\<bar>" by (simp add: q_def)
  also have "\<dots> < of_int (2 ^ 53)" using assms by (simp only: of_int_less_iff)
  finally have qlt: "q < 2 powi 53" by simp
  have "(2::rat) powi 0 \<le> q" using q1 by simp
  also have "\<dots> < 2 powi (ilog2 q + 1)" by (rule ilog2_bounds(2) [OF qpos])
  finally have e0: "0 \<le> ilog2 q" using pow2_less_cancel by fastforce
  have "(2::rat) powi (ilog2 q) \<le> q" by (rule ilog2_bounds(1) [OF qpos])
  also note qlt
  finally have e53: "ilog2 q < 53" by (rule pow2_less_cancel)
  define k where "k = nat (52 - ilog2 q)"
  have u: "max (ilog2 q) (- 1022) - 52 = - int k" using e0 e53 by (simp add: k_def)
  have "q / 2 powi (- int k) = q * 2 ^ k" by (simp add: power_int_minus field_simps)
  also have "\<dots> = of_int (\<bar>n\<bar> * 2 ^ k)" by (simp add: q_def)
  finally have ex: "\<bar>of_int n\<bar> / 2 powi (max (ilog2 \<bar>of_int n\<bar>) (- 1022) - 52) = (of_int (\<bar>n\<bar> * 2 ^ k) :: rat)"
    using u by (simp add: q_def)
  have "ilog2 \<bar>of_int n\<bar> \<le> 1023" using e53 by (simp add: q_def)
  with ex show ?thesis by (rule rnd_exact)
qed

lemma rnd_fixed:
  assumes "0 < q" and "rnd q = Finite v"
  shows "rnd v = Finite v"
proof -
  define e where "e = max (ilog2 q) (- 1022)"
  define P :: rat where "P = 2 powi (e - 52)"
  define m where "m = round_even (q / P)"
  have Ppos: "0 < P" by (simp add: P_def)
  have qabs: "\<bar>q\<bar> = q" and sq: "sgn q = 1" using assms(1) by simp_all
  have r: "rnd q = (if 1023 < e \<or> e = 1023 \<and> m = 2 ^ 53 then PosInf else Finite (of_int m * P))"
    unfolding rnd_def Let_def qabs sq
    unfolding e_def [symmetric]
    unfolding P_def [symmetric]
    unfolding m_def [symmetric]
    using assms(1) by simp
  with assms(2) have vdef: "v = of_int m * P" and e_hi: "e \<le> 1023"
    and nov: "e = 1023 \<Longrightarrow> m \<noteq> 2 ^ 53"
    by (auto split: if_splits)
  have e_ge: "- 1022 \<le> e" by (simp add: e_def)
  have "of_int 0 \<le> q / P" using assms(1) Ppos by simp
  then have m0: "0 \<le> m" unfolding m_def by (rule round_even_lower)
  have P53: "2 powi (e + 1) = 2 ^ 53 * P" unfolding P_def by (rule pow2_split53)
  have P52: "2 powi e = 2 ^ 52 * P" unfolding P_def by (rule pow2_split52)
  have "q / P < 2 ^ 53" unfolding P_def
    by (rule scaled_less_53 [OF assms(1)]) (simp add: e_def)
  then have "q / P \<le> of_int (2 ^ 53)" by simp
  then have m53: "m \<le> 2 ^ 53" unfolding m_def by (rule round_even_upper)
  show ?thesis
  proof (cases "m = 0")
    case True
    then show ?thesis by (simp add: vdef rnd_def)
  next
    case False
    with m0 have mpos: "0 < m" by simp
    then have vpos: "0 < v" using Ppos by (simp add: vdef)
    have vabs: "\<bar>v\<bar> = v" using vpos by simp
    show ?thesis
    proof (cases "m = 2 ^ 53")
      case True
      then have v2: "v = 2 powi (e + 1)" by (simp add: vdef P53)
      have il: "ilog2 v = e + 1"
        by (rule ilog2_unique [OF vpos]) (simp_all add: v2 power_int_strict_increasing)
      then have ue: "max (ilog2 v) (- 1022) - 52 = e - 52 + 1"
        using e_ge by simp
      have pp: "(2::rat) powi (e - 52 + 1) = 2 * P"
        unfolding P_def by (subst power_int_add) simp_all
      have "v / 2 powi (e - 52 + 1) = of_int (2 ^ 52)"
        unfolding pp using Ppos by (simp add: vdef True)
      then have "\<bar>v\<bar> / 2 powi (max (ilog2 \<bar>v\<bar>) (- 1022) - 52) = of_int (2 ^ 52)"
        unfolding vabs ue .
      moreover have "ilog2 \<bar>v\<bar> \<le> 1023" using il e_hi nov [OF _] True
        by (cases "e = 1023") (simp_all add: vabs)
      ultimately show ?thesis by (rule rnd_exact)
    next
      case False
      with m53 have mlt: "m < 2 ^ 53" by simp
      then have "(of_int m :: rat) < of_int (2 ^ 53)" by (simp only: of_int_less_iff)
      then have "v < 2 powi (e + 1)" using Ppos by (simp add: vdef P53)
      moreover have "2 powi (ilog2 v) \<le> v" by (rule ilog2_bounds(1) [OF vpos])
      ultimately have "(2::rat) powi (ilog2 v) < 2 powi (e + 1)" by simp
      then have le: "ilog2 v \<le> e" using pow2_less_cancel by fastforce
      have ge: "e \<le> ilog2 v" if "- 1022 < e"
      proof -
        from that have eq: "e = ilog2 q" by (simp add: e_def max_def split: if_splits)
        have "2 powi e \<le> q" unfolding eq by (rule ilog2_bounds(1) [OF assms(1)])
        then have "2 ^ 52 * P \<le> q" unfolding P52 .
        then have "2 ^ 52 \<le> q / P" using Ppos by (simp only: pos_le_divide_eq)
        then have "of_int (2 ^ 52) \<le> q / P" by simp
        then have "2 ^ 52 \<le> m" unfolding m_def by (rule round_even_lower)
        then have "(of_int (2 ^ 52) :: rat) \<le> of_int m" by (simp only: of_int_le_iff)
        then have "2 powi e \<le> v" using Ppos by (simp add: vdef P52)
        also have "v < 2 powi (ilog2 v + 1)" by (rule ilog2_bounds(2) [OF vpos])
        finally show ?thesis using pow2_less_cancel by fastforce
      qed
      have "max (ilog2 v) (- 1022) = e" using le ge e_ge by (cases "- 1022 < e") auto
      then have ue: "max (ilog2 v) (- 1022) - 52 = e - 52" by simp
      have "v / 2 powi (e - 52) = of_int m" using Ppos by (simp add: vdef P_def)
      then have "\<bar>v\<bar> / 2 powi (max (ilog2 \<bar>v\<bar>) (- 1022) - 52) = of_int m"
        unfolding vabs ue .
      moreover have "ilog2 \<bar>v\<bar> \<le> 1023" using le e_hi by (simp add: vabs)
      ultimately show ?thesis by (rule rnd_exact)
    qed
  qed
qed

lemma rnd_normal_pos:
  assumes "2 powi (- 1022) \<le> q" and "q < 2 powi 1023"
  shows "\<exists>v. rnd q = Finite v \<and> 0 < v"
proof -
  have qpos: "0 < q" using assms(1) by (rule order_less_le_trans [rotated]) simp
  define e where "e = ilog2 q"
  define P :: rat where "P = 2 powi (e - 52)"
  define m where "m = round_even (q / P)"
  have Ppos: "0 < P" by (simp add: P_def)
  have "(2::rat) powi (- 1022) < 2 powi (e + 1)"
    using assms(1) ilog2_bounds(2) [OF qpos] by (simp add: e_def)
  then have e_lo: "- 1022 \<le> e" using pow2_less_cancel by fastforce
  have "(2::rat) powi e < 2 powi 1023"
    using assms(2) ilog2_bounds(1) [OF qpos] unfolding e_def by (rule order_le_less_trans [rotated])
  then have e_hi: "e < 1023" by (rule pow2_less_cancel)
  have qabs: "\<bar>q\<bar> = q" and sq: "sgn q = 1" using qpos by simp_all
  have mx: "max (ilog2 q) (- 1022) = e" using e_lo by (simp add: e_def)
  have fin: "rnd q = Finite (of_int m * P)"
    using qpos e_hi unfolding rnd_def Let_def qabs sq mx m_def P_def by simp
  have P52: "2 powi e = 2 ^ 52 * P" unfolding P_def by (rule pow2_split52)
  have "2 powi e \<le> q" unfolding e_def by (rule ilog2_bounds(1) [OF qpos])
  then have "2 ^ 52 * P \<le> q" unfolding P52 .
  then have "2 ^ 52 \<le> q / P" using Ppos by (simp only: pos_le_divide_eq)
  then have "of_int (2 ^ 52) \<le> q / P" by simp
  then have m52: "2 ^ 52 \<le> m" unfolding m_def by (rule round_even_lower)
  have "0 < m" using m52 by simp
  then have "0 < of_int m * P" using Ppos by simp
  with fin show ?thesis by blast
qed

subsection \<open>Conversions between uint8, int and float64\<close>

lemma uint8_bounds: "0 \<le> uint (b :: uint8)" "uint (b :: uint8) < 256"
  using uint_lt2p [of b] by simp_all

lemma float64_of_uint8_eq: "float64_of_uint8 b = Finite (unsigned b)"
proof -
  have "\<bar>uint b\<bar> < 2 ^ 53" using uint8_bounds [of b] by simp
  then have "rnd (of_int (uint b)) = Finite (of_int (uint b))" by (rule rnd_of_int)
  then show ?thesis by (simp add: float64_of_uint8_def)
qed

lemma float64_of_int_eq: "\<bar>n\<bar> < 2 ^ 53 \<Longrightarrow> float64_of_int n = Finite (of_int n)"
  unfolding float64_of_int_def by (rule rnd_of_int)

lemma trunc_of_int: "trunc (of_int n) = n"
  by (simp add: trunc_def)

lemma trunc_unsigned: "trunc (unsigned (b :: uint8)) = uint b"
  using trunc_of_int [of "uint b"] by simp

lemma uint8_of_float64_unsigned: "uint8_of_float64 (Finite (unsigned (b :: uint8))) = b"
proof -
  have "- (2 ^ 31) \<le> (0 :: int)" by simp
  also have "0 \<le> uint b" by simp
  finally have lo: "- (2 ^ 31) \<le> uint b" .
  have "uint b < 256" by (rule uint8_bounds)
  then have hi: "uint b < 2 ^ 31" by simp
  show ?thesis using lo hi by (simp add: uint8_of_float64_def trunc_unsigned)
qed

lemma int_of_float64_of_int:
  "- (2 ^ 63) \<le> n \<Longrightarrow> n < 2 ^ 63 \<Longrightarrow> int_of_float64 (Finite (of_int n)) = n"
  by (simp add: int_of_float64_def trunc_of_int)

lemma unsigned_min: "(unsigned (min a b) :: rat) = min (unsigned a) (unsigned (b :: uint8))"
proof -
  have "(of_int (uint (min a b)) :: rat) = min (of_int (uint a)) (of_int (uint b))"
    by (simp add: min_def word_le_def del: of_int_uint)
  then show ?thesis by simp
qed

lemma unsigned_max: "(unsigned (max a b) :: rat) = max (unsigned a) (unsigned (b :: uint8))"
proof -
  have "(of_int (uint (max a b)) :: rat) = max (of_int (uint a)) (of_int (uint b))"
    by (simp add: max_def word_le_def del: of_int_uint)
  then show ?thesis by simp
qed

subsection \<open>The alpha operators on pixels\<close>

text \<open>
  C9. For every pair of input pixels, the channels widened to \<^verbatim>\<open>float64\<close> as the
  overlay loop widens them, \<^verbatim>\<open>OpMinAlpha\<close> returns the background's red, green and blue
  unchanged and the smaller of the two alphas, and \<^verbatim>\<open>OpMaxAlpha\<close> returns red, green
  and blue 255 and the larger of the two alphas. Converting a widened channel back with
  \<^verbatim>\<open>uint8(...)\<close> gives the byte itself, so the bytes written are \<open>r1, g1, b1, min a1 a2\<close>
  and \<open>255, 255, 255, max a1 a2\<close>.
\<close>

theorem OpMinAlpha_OpMaxAlpha_pixels:
  "OpMinAlpha (float64_of_uint8 r1) (float64_of_uint8 g1) (float64_of_uint8 b1) (float64_of_uint8 a1)
              (float64_of_uint8 r2) (float64_of_uint8 g2) (float64_of_uint8 b2) (float64_of_uint8 a2)
     = (float64_of_uint8 r1, float64_of_uint8 g1, float64_of_uint8 b1, float64_of_uint8 (min a1 a2))
   \<and> OpMaxAlpha (float64_of_uint8 r1) (float64_of_uint8 g1) (float64_of_uint8 b1) (float64_of_uint8 a1)
              (float64_of_uint8 r2) (float64_of_uint8 g2) (float64_of_uint8 b2) (float64_of_uint8 a2)
     = (float64_of_uint8 255, float64_of_uint8 255, float64_of_uint8 255, float64_of_uint8 (max a1 a2))
   \<and> uint8_of_float64 (float64_of_uint8 r1) = r1
   \<and> uint8_of_float64 (float64_of_uint8 (min a1 a2)) = min a1 a2
   \<and> uint8_of_float64 (float64_of_uint8 (max a1 a2)) = max a1 a2"
  by (simp add: OpMinAlpha_def OpMaxAlpha_def float64_of_uint8_eq unsigned_min unsigned_max
      uint8_of_float64_unsigned flip: unsigned_min unsigned_max)

section \<open>Buffers, scans and the row executor\<close>

lemma length_concat_const:
  "(\<And>x. x \<in> set xs \<Longrightarrow> length (f x) = n) \<Longrightarrow> length (concat (map f xs)) = n * length xs"
  by (induction xs) simp_all

lemma nth_concat_const:
  "(\<And>x. x \<in> set xs \<Longrightarrow> length (f x) = n) \<Longrightarrow> k < length xs \<Longrightarrow> c < n
     \<Longrightarrow> concat (map f xs) ! (n * k + c) = f (xs ! k) ! c"
proof (induction xs arbitrary: k)
  case Nil
  then show ?case by simp
next
  case (Cons x xs)
  show ?case
  proof (cases k)
    case 0
    then show ?thesis using Cons.prems by (simp add: nth_append)
  next
    case (Suc j)
    have "concat (map f xs) ! (n * j + c) = f (xs ! j) ! c"
      using Cons.prems Suc by (intro Cons.IH) simp_all
    then show ?thesis using Cons.prems Suc by (simp add: nth_append)
  qed
qed

lemma length_color_bytes: "length (color_bytes c) = 4"
  by (simp add: color_bytes_def)

lemma length_scan: "length (scan s x0 y x1 y1) = 4 * nat (x1 - x0)"
  unfolding scan_def by (subst length_concat_const [where n = 4]) (simp_all add: length_color_bytes)

lemma nth_scan:
  assumes "0 \<le> k" "k < x1 - x0" "c < 4"
  shows "scan s x0 y x1 y1 ! (4 * nat k + c) = color_bytes (pixel (image_img s) (x0 + k) y) ! c"
proof -
  have "nat k < length [x0..x1 - 1]" using assms by simp
  then have "concat (map (\<lambda>x. color_bytes (pixel (image_img s) x y)) [x0..x1 - 1]) ! (4 * nat k + c)
      = color_bytes (pixel (image_img s) ([x0..x1 - 1] ! nat k) y) ! c"
    using assms(3) by (intro nth_concat_const) (simp_all add: length_color_bytes)
  moreover have "[x0..x1 - 1] ! nat k = x0 + k" using assms by simp
  ultimately show ?thesis by (simp add: scan_def)
qed

lemma length_overwrite:
  "i + length bs \<le> length pix \<Longrightarrow> length (overwrite pix i bs) = length pix"
  by (simp add: overwrite_def)

lemma nth_overwrite:
  "i + length bs \<le> length pix \<Longrightarrow>
   overwrite pix i bs ! k = (if i \<le> k \<and> k < i + length bs then bs ! (k - i) else pix ! k)"
  by (auto simp: overwrite_def nth_append)

lemma scan_into_Some:
  assumes "0 \<le> i" "j = i + 4 * (x1 - x0)" "x0 \<le> x1" "j \<le> int (length pix)"
  shows "scan_into s x0 y x1 y1 pix i j = Some (overwrite pix (nat i) (scan s x0 y x1 y1))"
proof -
  have "nat (j - i) = length (scan s x0 y x1 y1)"
    using assms by (simp add: length_scan nat_mult_distrib)
  then show ?thesis using assms by (simp add: scan_into_def)
qed

lemma for_rows_total:
  assumes "\<And>y s. y \<in> set ys \<Longrightarrow> I s \<Longrightarrow> \<exists>s'. fn y s = Some s' \<and> I s'" and "I s"
  shows "\<exists>s'. for_rows fn ys s = Some s' \<and> I s'"
  using assms
proof (induction ys arbitrary: s)
  case Nil
  then show ?case by simp
next
  case (Cons y ys)
  from Cons.prems(1) [of y s] Cons.prems(2) obtain s1 where s1: "fn y s = Some s1" "I s1"
    by auto
  have "\<exists>s'. for_rows fn ys s1 = Some s' \<and> I s'"
    by (rule Cons.IH) (use Cons.prems(1) s1 in auto)
  then show ?case using s1 by simp
qed

lemma for_rows_invariant:
  assumes "for_rows fn ys s = Some s'" and "I s"
    and "\<And>y t t'. y \<in> set ys \<Longrightarrow> I t \<Longrightarrow> fn y t = Some t' \<Longrightarrow> I t'"
  shows "I s'"
  using assms
proof (induction ys arbitrary: s)
  case Nil
  then show ?case by simp
next
  case (Cons y ys)
  from Cons.prems(1) obtain s1 where s1: "fn y s = Some s1" "for_rows fn ys s1 = Some s'"
    by (auto split: option.splits)
  have "I s1" using Cons.prems(3) [of y s s1] Cons.prems(2) s1 by simp
  with s1 show ?case using Cons.IH [of s1] Cons.prems(3) by auto
qed

section \<open>OpaqueBounds\<close>

lemma OpaqueBounds_cols_total:
  "0 \<le> i \<Longrightarrow> i + 4 * int (length xs) \<le> int (length pix)
     \<Longrightarrow> \<exists>r. OpaqueBounds_cols threshold pix y xs i st = Some r"
proof (induction xs arbitrary: i st)
  case Nil
  then show ?case by (cases st) simp
next
  case (Cons x xs)
  obtain out first where st: "st = (out, first)" by (cases st)
  have rng: "0 \<le> i + 3 \<and> i + 3 < int (length pix)" using Cons.prems by simp
  have "\<And>st'. \<exists>r. OpaqueBounds_cols threshold pix y xs (i + 4) st' = Some r"
    by (rule Cons.IH) (use Cons.prems in simp_all)
  then show ?case using rng unfolding st
    by (simp add: Let_def split: prod.splits)
qed

lemma OpaqueBounds_cols_unchanged:
  "0 \<le> i \<Longrightarrow> i + 4 * int (length xs) \<le> int (length pix)
     \<Longrightarrow> (\<And>k. k < length xs \<Longrightarrow> pix ! nat (i + 4 * int k + 3) \<le> threshold)
     \<Longrightarrow> OpaqueBounds_cols threshold pix y xs i (out, first) = Some (out, first)"
proof (induction xs arbitrary: i)
  case Nil
  then show ?case by simp
next
  case (Cons x xs)
  have rng: "0 \<le> i + 3 \<and> i + 3 < int (length pix)" using Cons.prems by simp
  have a: "\<not> threshold < pix ! nat (i + 3)" using Cons.prems(3) [of 0] by (simp add: not_less)
  have "OpaqueBounds_cols threshold pix y xs (i + 4) (out, first) = Some (out, first)"
  proof (rule Cons.IH)
    show "0 \<le> i + 4" using Cons.prems by simp
    show "i + 4 + 4 * int (length xs) \<le> int (length pix)" using Cons.prems by simp
    fix k assume "k < length xs"
    then have "pix ! nat (i + 4 * int (Suc k) + 3) \<le> threshold" by (intro Cons.prems(3)) simp
    then show "pix ! nat (i + 4 + 4 * int k + 3) \<le> threshold" by (simp add: algebra_simps)
  qed
  then show ?case using rng a by (simp add: Let_def)
qed

lemma NewNRGBA_image_Rect:
  "0 \<le> wd \<Longrightarrow> 0 \<le> ht \<Longrightarrow>
   NewNRGBA (image_Rect 0 0 wd ht) =
     \<lparr>Pix = replicate (nat (4 * wd * ht)) 0, Stride = 4 * wd,
      Rect = \<lparr>Min_pt = \<lparr>X = 0, Y = 0\<rparr>, Max_pt = \<lparr>X = wd, Y = ht\<rparr>\<rparr>\<rparr>"
  by (simp add: NewNRGBA_def image_Rect_def Dx_def Dy_def)

lemma row_offset_bound:
  assumes "0 \<le> y" "y < ht" "0 \<le> (wd :: int)"
  shows "y * (4 * wd) + wd * 4 \<le> 4 * wd * ht"
proof -
  have "(y + 1) * wd \<le> ht * wd" using assms by (intro mult_right_mono) simp_all
  then show ?thesis by (simp add: algebra_simps)
qed

lemma scanned_alpha:
  assumes "0 \<le> i" "i + 4 * (x1 - x0) \<le> int (length pix)" "k < nat (x1 - x0)"
  shows "overwrite pix (nat i) (scan s x0 y x1 y1) ! nat (i + 4 * int k + 3)
           = A (pixel (image_img s) (x0 + int k) y)"
proof -
  have len: "nat i + length (scan s x0 y x1 y1) \<le> length pix"
    using assms by (simp add: length_scan)
  have idx: "nat (i + 4 * int k + 3) = nat i + (4 * k + 3)"
    using assms(1) by (simp add: nat_add_distrib nat_mult_distrib)
  have "overwrite pix (nat i) (scan s x0 y x1 y1) ! (nat i + (4 * k + 3))
          = scan s x0 y x1 y1 ! (4 * k + 3)"
    using assms by (subst nth_overwrite [OF len]) (simp add: length_scan)
  also have "\<dots> = color_bytes (pixel (image_img s) (x0 + int k) y) ! 3"
    using nth_scan [of "int k" x1 x0 3 s y y1] assms(3) by simp
  finally show ?thesis by (simp add: idx color_bytes_def)
qed

lemma OpaqueBounds_row_total:
  assumes "0 \<le> y" "y < ht" "0 \<le> w src" "int (length pix) = 4 * w src * ht"
  shows "\<exists>pix' r. OpaqueBounds_row src threshold (4 * w src) y (pix, st) = Some (pix', r)
            \<and> length pix' = length pix"
proof -
  let ?i = "y * (4 * w src)"
  have i0: "0 \<le> ?i" using assms by simp
  have bnd: "?i + w src * 4 \<le> int (length pix)"
    using row_offset_bound [OF assms(1,2,3)] assms(4) by simp
  define pix' where "pix' = overwrite pix (nat ?i) (scan src 0 y (w src) (y + 1))"
  have sc: "scan_into src 0 y (w src) (y + 1) pix ?i (?i + w src * 4) = Some pix'"
    unfolding pix'_def by (rule scan_into_Some) (use assms i0 bnd in simp_all)
  have len: "length pix' = length pix"
    unfolding pix'_def using bnd i0 assms(3)
    by (intro length_overwrite) (simp add: length_scan)
  have "\<exists>r. OpaqueBounds_cols threshold pix' y [0..w src - 1] ?i st = Some r"
    by (rule OpaqueBounds_cols_total) (use i0 bnd len assms(3) in simp_all)
  then obtain r where "OpaqueBounds_cols threshold pix' y [0..w src - 1] ?i st = Some r" ..
  then show ?thesis using sc len
    by (cases st; cases r) (simp add: OpaqueBounds_row_def Let_def)
qed

lemma OpaqueBounds_row_unchanged:
  assumes "0 \<le> y" "y < ht" "0 \<le> w src" "int (length pix) = 4 * w src * ht"
    and "\<And>x. 0 \<le> x \<Longrightarrow> x < w src \<Longrightarrow> A (pixel (image_img src) x y) \<le> threshold"
  shows "\<exists>pix'. OpaqueBounds_row src threshold (4 * w src) y (pix, out, first) = Some (pix', out, first)
            \<and> length pix' = length pix"
proof -
  let ?i = "y * (4 * w src)"
  have i0: "0 \<le> ?i" using assms by simp
  have bnd: "?i + w src * 4 \<le> int (length pix)"
    using row_offset_bound [OF assms(1,2,3)] assms(4) by simp
  define pix' where "pix' = overwrite pix (nat ?i) (scan src 0 y (w src) (y + 1))"
  have sc: "scan_into src 0 y (w src) (y + 1) pix ?i (?i + w src * 4) = Some pix'"
    unfolding pix'_def by (rule scan_into_Some) (use assms i0 bnd in simp_all)
  have len: "length pix' = length pix"
    unfolding pix'_def using bnd i0 assms(3)
    by (intro length_overwrite) (simp add: length_scan)
  have "OpaqueBounds_cols threshold pix' y [0..w src - 1] ?i (out, first) = Some (out, first)"
  proof (rule OpaqueBounds_cols_unchanged)
    show "0 \<le> ?i" by (rule i0)
    show "?i + 4 * int (length [0..w src - 1]) \<le> int (length pix')"
      using bnd len assms(3) by simp
    fix k assume k: "k < length [0..w src - 1]"
    then have k': "k < nat (w src - 0)" by simp
    have "pix' ! nat (?i + 4 * int k + 3) = A (pixel (image_img src) (0 + int k) y)"
      unfolding pix'_def by (rule scanned_alpha) (use i0 bnd k' in simp_all)
    moreover have "A (pixel (image_img src) (int k) y) \<le> threshold"
      using k' by (intro assms(5)) simp_all
    ultimately show "pix' ! nat (?i + 4 * int k + 3) \<le> threshold" by simp
  qed
  then show ?thesis using sc len by (simp add: OpaqueBounds_row_def Let_def)
qed

lemma OpaqueBounds_total:
  assumes "well_formed (Bounds img)"
  shows "\<exists>r. OpaqueBounds img threshold = Some r"
proof -
  define src where "src = newScanner img"
  have w0: "0 \<le> w src" and h0: "0 \<le> h src"
    using assms by (simp_all add: src_def newScanner_def well_formed_def Dx_def Dy_def)
  define I :: "uint8 list \<times> rectangle \<times> bool \<Rightarrow> bool"
    where "I = (\<lambda>st. int (length (fst st)) = 4 * w src * h src)"
  have "\<exists>s'. for_rows (OpaqueBounds_row src threshold (4 * w src)) [0..h src - 1]
           (replicate (nat (4 * w src * h src)) 0, ZR, True) = Some s' \<and> I s'"
  proof (rule for_rows_total)
    show "I (replicate (nat (4 * w src * h src)) 0, ZR, True)"
      using w0 h0 by (simp add: I_def)
    fix y s assume y: "y \<in> set [0..h src - 1]" and s: "I s"
    obtain pix st where ps: "s = (pix, st)" by (cases s)
    have "\<exists>pix' r. OpaqueBounds_row src threshold (4 * w src) y (pix, st) = Some (pix', r)
            \<and> length pix' = length pix"
      by (rule OpaqueBounds_row_total [where ht = "h src"]) (use y s w0 in \<open>simp_all add: I_def ps\<close>)
    then show "\<exists>s'. OpaqueBounds_row src threshold (4 * w src) y s = Some s' \<and> I s'"
      using s by (auto simp: I_def ps)
  qed
  then show ?thesis
    unfolding OpaqueBounds_def Let_def src_def [symmetric] parallel_def
    by (auto simp: NewNRGBA_image_Rect [OF w0 h0] split: prod.splits)
qed

lemma OpaqueBounds_none_above:
  assumes "well_formed (Bounds img)"
    and "\<And>x y. 0 \<le> x \<Longrightarrow> x < Dx (Bounds img) \<Longrightarrow> 0 \<le> y \<Longrightarrow> y < Dy (Bounds img)
           \<Longrightarrow> A (pixel img x y) \<le> threshold"
  shows "OpaqueBounds img threshold = Some ZR"
proof -
  define src where "src = newScanner img"
  have w0: "0 \<le> w src" and h0: "0 \<le> h src"
    using assms(1) by (simp_all add: src_def newScanner_def well_formed_def Dx_def Dy_def)
  have wd: "w src = Dx (Bounds img)" and ht: "h src = Dy (Bounds img)"
    and im: "image_img src = img"
    by (simp_all add: src_def newScanner_def)
  define I :: "uint8 list \<times> rectangle \<times> bool \<Rightarrow> bool"
    where "I = (\<lambda>st. int (length (fst st)) = 4 * w src * h src \<and> snd st = (ZR, True))"
  have "\<exists>s'. for_rows (OpaqueBounds_row src threshold (4 * w src)) [0..h src - 1]
           (replicate (nat (4 * w src * h src)) 0, ZR, True) = Some s' \<and> I s'"
  proof (rule for_rows_total)
    show "I (replicate (nat (4 * w src * h src)) 0, ZR, True)"
      using w0 h0 by (simp add: I_def)
    fix y s assume y: "y \<in> set [0..h src - 1]" and s: "I s"
    obtain pix where ps: "s = (pix, ZR, True)" using s by (cases s) (auto simp: I_def)
    have "\<exists>pix'. OpaqueBounds_row src threshold (4 * w src) y (pix, ZR, True) = Some (pix', ZR, True)
            \<and> length pix' = length pix"
    proof (rule OpaqueBounds_row_unchanged [where ht = "h src"])
      fix x assume "0 \<le> x" "x < w src"
      then show "A (pixel (image_img src) x y) \<le> threshold"
        using y by (simp add: im wd ht assms(2))
    qed (use y s w0 in \<open>simp_all add: I_def ps\<close>)
    then show "\<exists>s'. OpaqueBounds_row src threshold (4 * w src) y s = Some s' \<and> I s'"
      using s by (auto simp: I_def ps)
  qed
  then show ?thesis
    unfolding OpaqueBounds_def Let_def src_def [symmetric] parallel_def
    by (auto simp: I_def NewNRGBA_image_Rect [OF w0 h0] split: prod.splits)
qed

text \<open>
  C7. When no pixel of an image has an alpha above the threshold, \<^verbatim>\<open>OpaqueBounds\<close>
  returns the zero rectangle. On the transparent 4 by 4 buffer with one opaque pixel in
  column 1 of row 2 and threshold 10 it returns the rectangle with \<open>Min = (1, 2)\<close> and
  \<open>Max = (1, 2)\<close>: the maximum is the coordinate of the pixel found, not one past it.
\<close>

theorem OpaqueBounds_zero_and_single_pixel:
  "(well_formed (Bounds img) \<and>
    (\<forall>x y. 0 \<le> x \<and> x < Dx (Bounds img) \<and> 0 \<le> y \<and> y < Dy (Bounds img)
       \<longrightarrow> A (pixel img x y) \<le> threshold)
    \<longrightarrow> OpaqueBounds img threshold = Some ZR)
   \<and> OpaqueBounds single_pixel_4x4 10 = Some \<lparr>Min_pt = \<lparr>X = 1, Y = 2\<rparr>, Max_pt = \<lparr>X = 1, Y = 2\<rparr>\<rparr>"
proof
  show "well_formed (Bounds img) \<and>
    (\<forall>x y. 0 \<le> x \<and> x < Dx (Bounds img) \<and> 0 \<le> y \<and> y < Dy (Bounds img)
       \<longrightarrow> A (pixel img x y) \<le> threshold)
    \<longrightarrow> OpaqueBounds img threshold = Some ZR"
    using OpaqueBounds_none_above [of img threshold] by blast
  show "OpaqueBounds single_pixel_4x4 10 = Some \<lparr>Min_pt = \<lparr>X = 1, Y = 2\<rparr>, Max_pt = \<lparr>X = 1, Y = 2\<rparr>\<rparr>"
    by code_simp
qed

theorem OpaqueBounds_zero_and_single_pixel_witness:
  "well_formed (Bounds transparent_4x4)
   \<and> A (pixel transparent_4x4 3 3) \<le> 0
   \<and> OpaqueBounds transparent_4x4 0 = Some ZR
   \<and> OpaqueBounds single_pixel_4x4 10 = Some \<lparr>Min_pt = \<lparr>X = 1, Y = 2\<rparr>, Max_pt = \<lparr>X = 1, Y = 2\<rparr>\<rparr>"
  using OpaqueBounds_zero_and_single_pixel [of transparent_4x4 0]
  by (simp add: transparent_4x4_def image_of_def rgba_def well_formed_def)

section \<open>OpaqueArea\<close>

text \<open>
  C2. The claim is that a fully opaque image of \<open>w\<close> by \<open>h\<close> pixels has area \<open>w * h\<close> at
  threshold 0 and that a transparent image has area 0. The row loop starts at offset
  \<open>y * 4\<close> instead of \<open>y * Stride\<close> and advances the offset before it reads the alpha
  byte, so it never looks at column 0 and reads one pixel past the scanned row: the
  opaque 2 by 2 image has area 2, and on an image of height 1 the read is out of range.
\<close>

theorem OpaqueArea_misses_first_column:
  "OpaqueArea opaque_2x2 0 = Some 2 \<and> OpaqueArea transparent_3x1 0 = None"
  by code_simp

section \<open>OpaquePolygon\<close>

lemma OpaquePolygon_opaque_4x4:
  "OpaquePolygon opaque_4x4 3 0 =
       Some [\<lparr>X = 0, Y = 2\<rparr>, \<lparr>X = 0, Y = 1\<rparr>, \<lparr>X = 0, Y = 0\<rparr>,
             \<lparr>X = 1, Y = 0\<rparr>, \<lparr>X = 1, Y = 1\<rparr>, \<lparr>X = 1, Y = 2\<rparr>]"
  by code_simp

lemma OpaquePolygon_block_3x3:
  "OpaqueBounds block_3x3 0 = Some \<lparr>Min_pt = \<lparr>X = 1, Y = 1\<rparr>, Max_pt = \<lparr>X = 2, Y = 2\<rparr>\<rparr>
   \<and> A (pixel block_3x3 1 1) = 255
   \<and> OpaquePolygon block_3x3 2 0 = Some [ZP, ZP, ZP, ZP]"
  by code_simp

text \<open>
  C3. The claim is that each sampled row stores its first and its last pixel above the
  threshold. The column loop advances the offset before it reads the alpha byte, so the
  alpha tested for column \<open>x\<close> is that of the next pixel, and for the last column a byte
  the scan never wrote. On the 3 by 3 image whose opaque block starts at \<open>(1, 1)\<close> the
  bounding box is \<open>(1, 1)\<close> to \<open>(2, 2)\<close>, both samples are row 1, whose pixel in column 1
  is opaque, and all four points stay zero. On the opaque 4 by 4 image the right edge is
  column 1, while the last column scanned is column 2.
\<close>

theorem OpaquePolygon_reads_next_pixel:
  "OpaqueBounds block_3x3 0 = Some \<lparr>Min_pt = \<lparr>X = 1, Y = 1\<rparr>, Max_pt = \<lparr>X = 2, Y = 2\<rparr>\<rparr>
   \<and> A (pixel block_3x3 1 1) = 255
   \<and> OpaquePolygon block_3x3 2 0 = Some [ZP, ZP, ZP, ZP]
   \<and> OpaquePolygon opaque_4x4 3 0 =
       Some [\<lparr>X = 0, Y = 2\<rparr>, \<lparr>X = 0, Y = 1\<rparr>, \<lparr>X = 0, Y = 0\<rparr>,
             \<lparr>X = 1, Y = 0\<rparr>, \<lparr>X = 1, Y = 1\<rparr>, \<lparr>X = 1, Y = 2\<rparr>]"
  using OpaquePolygon_opaque_4x4 OpaquePolygon_block_3x3 by simp

lemma OpaquePolygon_cols_length:
  "OpaquePolygon_cols threshold pix n k y xs i (foundLeft, out) = Some out'
     \<Longrightarrow> length out' = length out"
proof (induction xs arbitrary: i foundLeft out)
  case Nil
  then show ?case by simp
next
  case (Cons x xs)
  from Cons.prems show ?case
    by (auto simp: Let_def split: if_splits dest!: Cons.IH)
qed

lemma OpaquePolygon_row_length:
  assumes "OpaquePolygon_row src threshold bounds n yStep wd k (pix, out) = Some (pix', out')"
  shows "length out' = length out"
  using assms OpaquePolygon_cols_length
  by (fastforce simp: OpaquePolygon_row_def Let_def split: option.splits)

lemma OpaquePolygon_length:
  assumes "OpaquePolygon img n threshold = Some out" and "0 \<le> n"
  shows "int (length out) = 2 * n"
proof -
  from assms(1) obtain bounds where b: "OpaqueBounds img threshold = Some bounds"
    by (auto simp: OpaquePolygon_def split: option.splits)
  define src where "src = newScanner img"
  define dst where "dst = NewNRGBA (image_Rect 0 0 (w src) (h src))"
  let ?yStep = "f64_div (float64_of_int (Dy bounds - 1)) (float64_of_int (n - 1))"
  from assms b obtain pix where
    run: "for_rows (OpaquePolygon_row src threshold bounds n ?yStep (Dx bounds)) [0..n - 1]
            (Pix dst, replicate (nat (2 * n)) ZP) = Some (pix, out)"
    unfolding OpaquePolygon_def Let_def src_def [symmetric] dst_def [symmetric] parallel_def
    by (auto split: option.splits if_splits prod.splits)
  define I :: "uint8 list \<times> point list \<Rightarrow> bool"
    where "I = (\<lambda>st. length (snd st) = nat (2 * n))"
  have "I (pix, out)"
  proof (rule for_rows_invariant [OF run])
    show "I (Pix dst, replicate (nat (2 * n)) ZP)" by (simp add: I_def)
    fix k t t'
    assume "I t" and "OpaquePolygon_row src threshold bounds n ?yStep (Dx bounds) k t = Some t'"
    then show "I t'"
      using OpaquePolygon_row_length [of src threshold bounds n ?yStep "Dx bounds" k "fst t" "snd t" "fst t'" "snd t'"]
      by (simp add: I_def)
  qed
  then show ?thesis using assms(2) by (simp add: I_def)
qed

lemma OpaquePolygon_zero:
  assumes "well_formed (Bounds img)"
  shows "OpaquePolygon img 0 threshold = Some []"
proof -
  from OpaqueBounds_total [OF assms] obtain r where "OpaqueBounds img threshold = Some r" ..
  then show ?thesis by (simp add: OpaquePolygon_def parallel_def)
qed

section \<open>The sampled rows of OpaquePolygon\<close>

lemma round_even_le_half: "of_int (round_even q) \<le> q + 1 / 2"
proof -
  have f: "of_int \<lfloor>q\<rfloor> \<le> q" by simp
  consider "q - of_int \<lfloor>q\<rfloor> < 1 / 2" | "1 / 2 \<le> q - of_int \<lfloor>q\<rfloor>" by linarith
  then show ?thesis
  proof cases
    case 1
    then have "round_even q = \<lfloor>q\<rfloor>" by (simp add: round_even_def Let_def)
    then show ?thesis using f by linarith
  next
    case 2
    have "round_even q \<le> \<lfloor>q\<rfloor> + 1" by (simp add: round_even_def Let_def)
    then have "(of_int (round_even q) :: rat) \<le> of_int (\<lfloor>q\<rfloor> + 1)" by (simp only: of_int_le_iff)
    then show ?thesis using 2 by simp
  qed
qed

lemma rnd_between:
  assumes "0 \<le> lo" and "hi < 2 ^ 53" and "of_int lo \<le> x" and "x \<le> of_int hi"
  shows "\<exists>v. rnd x = Finite v \<and> of_int lo \<le> v \<and> v \<le> of_int hi"
proof (cases "x = 0")
  case True
  then show ?thesis using assms by (simp add: rnd_def)
next
  case False
  have "(0::rat) \<le> of_int lo" using assms(1) by simp
  with assms(3) False have xpos: "0 < x" by simp
  define e where "e = max (ilog2 x) (- 1022)"
  have "(of_int hi :: rat) < of_int (2 ^ 53)" using assms(2) by (simp only: of_int_less_iff)
  then have "x < 2 powi 53" using assms(4) by simp
  moreover have "2 powi (ilog2 x) \<le> x" by (rule ilog2_bounds(1) [OF xpos])
  ultimately have "(2::rat) powi (ilog2 x) < 2 powi 53" by simp
  then have "ilog2 x < 53" by (rule pow2_less_cancel)
  then have e52: "e \<le> 52" by (simp add: e_def)
  define k where "k = nat (52 - e)"
  have P: "(2::rat) powi (e - 52) = 1 / 2 ^ k"
    using e52 by (simp add: k_def power_int_def field_simps)
  define m where "m = round_even (x / 2 powi (e - 52))"
  have sc: "x / 2 powi (e - 52) = x * 2 ^ k" by (simp add: P)
  have "of_int (lo * 2 ^ k) \<le> x * 2 ^ k" using assms(3) by simp
  then have mlo: "lo * 2 ^ k \<le> m" unfolding m_def sc by (rule round_even_lower)
  have "x * 2 ^ k \<le> of_int (hi * 2 ^ k)" using assms(4) by simp
  then have mhi: "m \<le> hi * 2 ^ k" unfolding m_def sc by (rule round_even_upper)
  have "(of_int (lo * 2 ^ k) :: rat) \<le> of_int m" using mlo by (simp only: of_int_le_iff)
  then have vlo: "of_int lo \<le> of_int m * (2::rat) powi (e - 52)"
    by (simp add: P field_simps)
  have "(of_int m :: rat) \<le> of_int (hi * 2 ^ k)" using mhi by (simp only: of_int_le_iff)
  then have vhi: "of_int m * (2::rat) powi (e - 52) \<le> of_int hi"
    by (simp add: P field_simps)
  have "rnd x = Finite (of_int m * 2 powi (e - 52))"
    unfolding rnd_def Let_def
    unfolding abs_of_pos [OF xpos]
    unfolding e_def [symmetric]
    unfolding m_def [symmetric]
    using xpos e52 by simp
  with vlo vhi show ?thesis by blast
qed

lemma rnd_quotient_upper:
  assumes "1 \<le> a" "a < 2 ^ 53" "1 \<le> b" "b < 2 ^ 53"
  shows "\<exists>v. rnd (of_int a / of_int b) = Finite v \<and> 0 \<le> v \<and> of_int b * v \<le> of_int a + 1"
proof -
  define q :: rat where "q = of_int a / of_int b"
  have apos: "(0::rat) < of_int a" and bpos: "(0::rat) < of_int b" using assms by simp_all
  have qpos: "0 < q" using apos bpos by (simp add: q_def)
  have b53: "(of_int b :: rat) < 2 ^ 53"
  proof -
    have "(of_int b :: rat) < of_int (2 ^ 53)" using assms(4) by (simp only: of_int_less_iff)
    then show ?thesis by simp
  qed
  have a53: "(of_int a :: rat) < 2 ^ 53"
  proof -
    have "(of_int a :: rat) < of_int (2 ^ 53)" using assms(2) by (simp only: of_int_less_iff)
    then show ?thesis by simp
  qed
  have a1: "(1::rat) \<le> of_int a"
  proof -
    have "(of_int 1 :: rat) \<le> of_int a" using assms(1) by (simp only: of_int_le_iff)
    then show ?thesis by simp
  qed
  have b1: "(1::rat) \<le> of_int b"
  proof -
    have "(of_int 1 :: rat) \<le> of_int b" using assms(3) by (simp only: of_int_le_iff)
    then show ?thesis by simp
  qed
  have "1 / 2 ^ 53 < 1 / (of_int b :: rat)" using b53 bpos by (simp add: field_simps)
  also have "\<dots> \<le> q" unfolding q_def using a1 bpos by (simp add: field_simps)
  finally have qlo: "1 / 2 ^ 53 < q" .
  have "q \<le> of_int a" unfolding q_def using b1 apos by (simp add: field_simps)
  with a53 have qhi: "q < 2 ^ 53" by simp
  define e where "e = ilog2 q"
  have "(2::rat) powi (- 53) < 2 powi (e + 1)"
  proof -
    have "(2::rat) powi (- 53) = 1 / 2 ^ 53" by (simp add: power_int_minus field_simps)
    also note qlo
    also have "q < 2 powi (e + 1)" unfolding e_def by (rule ilog2_bounds(2) [OF qpos])
    finally show ?thesis .
  qed
  then have "- 53 < e + 1" by (rule pow2_less_cancel)
  then have e_lo: "- 1022 \<le> e" by simp
  have "(2::rat) powi e < 2 powi 53"
  proof -
    have "(2::rat) powi e \<le> q" unfolding e_def by (rule ilog2_bounds(1) [OF qpos])
    also note qhi
    finally show ?thesis by simp
  qed
  then have e_hi: "e < 53" by (rule pow2_less_cancel)
  define P :: rat where "P = 2 powi (e - 52)"
  define m where "m = round_even (q / P)"
  have Ppos: "0 < P" by (simp add: P_def)
  have mx: "max (ilog2 q) (- 1022) = e" using e_lo by (simp add: e_def)
  have fin: "rnd q = Finite (of_int m * P)"
    unfolding rnd_def Let_def
    unfolding abs_of_pos [OF qpos]
    unfolding mx
    unfolding P_def [symmetric]
    unfolding m_def [symmetric]
    using qpos e_hi by simp
  have "of_int 0 \<le> q / P" using qpos Ppos by simp
  then have "0 \<le> m" unfolding m_def by (rule round_even_lower)
  then have v0: "0 \<le> of_int m * P" using Ppos by simp
  have "2 ^ 52 * P = 2 powi e" unfolding P_def by (rule pow2_split52 [symmetric])
  also have "\<dots> \<le> q" unfolding e_def by (rule ilog2_bounds(1) [OF qpos])
  finally have Pq: "P \<le> q / 2 ^ 52" by (simp add: field_simps)
  have "of_int m \<le> q / P + 1 / 2" unfolding m_def by (rule round_even_le_half)
  then have "of_int m * P \<le> (q / P + 1 / 2) * P" using Ppos by (simp only: mult_le_cancel_right_pos)
  also have "\<dots> = q + P / 2" using Ppos by (simp add: field_simps)
  also have "\<dots> \<le> q + q / 2 ^ 53" using Pq by simp
  finally have v_hi: "of_int m * P \<le> q + q / 2 ^ 53" .
  have "of_int b * (of_int m * P) \<le> of_int b * (q + q / 2 ^ 53)"
    using v_hi bpos by (simp only: mult_le_cancel_left_pos)
  also have "\<dots> = of_int a + of_int a / 2 ^ 53"
    unfolding q_def using bpos by (simp add: field_simps)
  also have "\<dots> \<le> of_int a + 1" using a53 by simp
  finally have "of_int b * (of_int m * P) \<le> of_int a + 1" .
  with fin v0 show ?thesis unfolding q_def by blast
qed

lemma sampled_row_range:
  assumes n: "2 \<le> n" "n \<le> 2 ^ 52" and k: "0 \<le> k" "k < n"
    and dy: "1 \<le> dy" and minY: "0 \<le> minY" "minY + dy < 2 ^ 52"
  defines "y \<equiv> int_of_float64 (math_Floor (f64_add (float64_of_int minY)
             (f64_mul (float64_of_int k)
                (f64_div (float64_of_int (dy - 1)) (float64_of_int (n - 1))))))"
  shows "minY \<le> y" and "y \<le> minY + dy"
proof -
  have small: "\<bar>dy - 1\<bar> < 2 ^ 53" "\<bar>n - 1\<bar> < 2 ^ 53" "\<bar>k\<bar> < 2 ^ 53" "\<bar>minY\<bar> < 2 ^ 53"
    using n k dy minY by simp_all
  have "\<exists>s. f64_div (float64_of_int (dy - 1)) (float64_of_int (n - 1)) = Finite s
          \<and> 0 \<le> s \<and> of_int (n - 1) * s \<le> of_int dy"
  proof (cases "dy = 1")
    case True
    then show ?thesis using n small by (simp add: float64_of_int_eq rnd_def)
  next
    case False
    have "\<exists>v. rnd (of_int (dy - 1) / of_int (n - 1)) = Finite v \<and> 0 \<le> v
           \<and> of_int (n - 1) * v \<le> of_int (dy - 1) + 1"
      by (rule rnd_quotient_upper) (use n dy minY False in simp_all)
    then show ?thesis using n small(1,2)
      by (simp only: float64_of_int_eq f64_div.simps) auto
  qed
  then obtain s where s: "f64_div (float64_of_int (dy - 1)) (float64_of_int (n - 1)) = Finite s"
    "0 \<le> s" "of_int (n - 1) * s \<le> of_int dy" by blast
  have ks0: "of_int 0 \<le> of_int k * s" using k s(2) by simp
  have "of_int k * s \<le> of_int (n - 1) * s"
    using k s(2) by (intro mult_right_mono) simp_all
  then have ks1: "of_int k * s \<le> of_int dy" using s(3) by simp
  have "\<exists>p. rnd (of_int k * s) = Finite p \<and> of_int 0 \<le> p \<and> p \<le> of_int dy"
    by (rule rnd_between) (use ks0 ks1 dy minY in simp_all)
  then obtain p where p: "rnd (of_int k * s) = Finite p" "0 \<le> p" "p \<le> of_int dy" by auto
  have "\<exists>t. rnd (of_int minY + p) = Finite t \<and> of_int minY \<le> t \<and> t \<le> of_int (minY + dy)"
    by (rule rnd_between) (use p minY in simp_all)
  then obtain t where t: "rnd (of_int minY + p) = Finite t" "of_int minY \<le> t"
    "t \<le> of_int (minY + dy)" by blast
  have fl: "minY \<le> \<lfloor>t\<rfloor>" "\<lfloor>t\<rfloor> \<le> minY + dy"
    using t(2,3) by (simp_all add: le_floor_iff floor_le_iff)
  have c1: "- (2 ^ 63) \<le> (0 :: int)" and c2: "(2 ^ 52 :: int) < 2 ^ 63" by simp_all
  have "- (2 ^ 63) \<le> \<lfloor>t\<rfloor>" "\<lfloor>t\<rfloor> < 2 ^ 63" using fl minY c1 c2 by linarith+
  then have "y = \<lfloor>t\<rfloor>"
    unfolding y_def using small(3,4)
    by (simp add: float64_of_int_eq s(1) p(1) t(1) math_Floor_def int_of_float64_of_int)
  with fl show "minY \<le> y" and "y \<le> minY + dy" by simp_all
qed

lemma int_of_float64_min:
  assumes "\<bar>x\<bar> < 2 ^ 53" "\<bar>m\<bar> < 2 ^ 53"
  shows "int_of_float64 (math_Min (float64_of_int x) (float64_of_int m)) = min x m"
proof -
  have c: "(2 ^ 53 :: int) < 2 ^ 63" by simp
  have "- (2 ^ 63) \<le> min x m" "min x m < 2 ^ 63" using assms c by linarith+
  then have "int_of_float64 (Finite (of_int (min x m))) = min x m" by (rule int_of_float64_of_int)
  then show ?thesis using assms by (simp add: float64_of_int_eq of_int_min)
qed

lemma int_of_float64_max:
  assumes "\<bar>x\<bar> < 2 ^ 53" "\<bar>m\<bar> < 2 ^ 53"
  shows "int_of_float64 (math_Max (float64_of_int x) (float64_of_int m)) = max x m"
proof -
  have c: "(2 ^ 53 :: int) < 2 ^ 63" by simp
  have "- (2 ^ 63) \<le> max x m" "max x m < 2 ^ 63" using assms c by linarith+
  then have "int_of_float64 (Finite (of_int (max x m))) = max x m" by (rule int_of_float64_of_int)
  then show ?thesis using assms by (simp add: float64_of_int_eq of_int_max)
qed

lemma OpaqueBounds_cols_within:
  assumes "wd \<le> 2 ^ 52" "ht \<le> 2 ^ 52" "0 \<le> y" "y < ht"
  shows "OpaqueBounds_cols threshold pix y xs i st = Some r \<Longrightarrow> found_within wd ht st
     \<Longrightarrow> (\<And>x. x \<in> set xs \<Longrightarrow> 0 \<le> x \<and> x < wd) \<Longrightarrow> found_within wd ht r"
proof (induction xs arbitrary: i st)
  case Nil
  then show ?case by (cases st) simp
next
  case (Cons x xs)
  obtain out first where st: "st = (out, first)" by (cases st)
  have x: "0 \<le> x" "x < wd" using Cons.prems(3) [of x] by simp_all
  have c: "(2 ^ 52 :: int) < 2 ^ 53" by simp
  have sx: "\<bar>x\<bar> < 2 ^ 53" and sy: "\<bar>y\<bar> < 2 ^ 53" using x assms c by linarith+
  from Cons.prems(1) have rng: "0 \<le> i + 3 \<and> i + 3 < int (length pix)"
    unfolding st by (auto split: if_splits)
  define a where "a = pix ! nat (i + 3)"
  define st1 where "st1 = (if threshold < a \<and> first
      then (\<lparr>Min_pt = \<lparr>X = x, Y = y\<rparr>, Max_pt = \<lparr>X = x, Y = y\<rparr>\<rparr>, False) else (out, first))"
  define out2 where "out2 = (if threshold < a \<and> \<not> snd st1
      then \<lparr>Min_pt =
               \<lparr>X = int_of_float64 (math_Min (float64_of_int x) (float64_of_int (X (Min_pt (fst st1))))),
                Y = int_of_float64 (math_Min (float64_of_int y) (float64_of_int (Y (Min_pt (fst st1)))))\<rparr>,
             Max_pt =
               \<lparr>X = int_of_float64 (math_Max (float64_of_int x) (float64_of_int (X (Max_pt (fst st1))))),
                Y = int_of_float64 (math_Max (float64_of_int y) (float64_of_int (Y (Max_pt (fst st1)))))\<rparr>\<rparr>
      else fst st1)"
  have step: "OpaqueBounds_cols threshold pix y xs (i + 4) (out2, snd st1) = Some r"
    using Cons.prems(1) rng unfolding st out2_def st1_def a_def
    by (simp add: Let_def split: if_splits prod.splits)
  have w1: "found_within wd ht st1"
    using Cons.prems(2) x assms unfolding st st1_def by (simp add: found_within_def)
  have "found_within wd ht (out2, snd st1)"
  proof (cases "threshold < a \<and> \<not> snd st1")
    case False
    then have "out2 = fst st1" unfolding out2_def by (simp only: if_False)
    then show ?thesis using w1 by simp
  next
    case True
    then have nf: "\<not> snd st1" by simp
    from w1 nf have b: "0 \<le> X (Min_pt (fst st1))" "X (Min_pt (fst st1)) \<le> X (Max_pt (fst st1))"
      "X (Max_pt (fst st1)) < wd" "0 \<le> Y (Min_pt (fst st1))"
      "Y (Min_pt (fst st1)) \<le> Y (Max_pt (fst st1))" "Y (Max_pt (fst st1)) < ht"
      by (cases st1; simp add: found_within_def)+
    have s: "\<bar>X (Min_pt (fst st1))\<bar> < 2 ^ 53" "\<bar>X (Max_pt (fst st1))\<bar> < 2 ^ 53"
      "\<bar>Y (Min_pt (fst st1))\<bar> < 2 ^ 53" "\<bar>Y (Max_pt (fst st1))\<bar> < 2 ^ 53"
      using b assms c by linarith+
    have "out2 = \<lparr>Min_pt = \<lparr>X = min x (X (Min_pt (fst st1))), Y = min y (Y (Min_pt (fst st1)))\<rparr>,
                  Max_pt = \<lparr>X = max x (X (Max_pt (fst st1))), Y = max y (Y (Max_pt (fst st1)))\<rparr>\<rparr>"
      using True
      by (simp add: out2_def int_of_float64_min [OF sx s(1)] int_of_float64_min [OF sy s(3)]
          int_of_float64_max [OF sx s(2)] int_of_float64_max [OF sy s(4)])
    then show ?thesis using nf b x assms by (auto simp: found_within_def)
  qed
  then show ?case
    using Cons.IH [OF step] Cons.prems(3) by simp
qed

lemma OpaqueBounds_within:
  assumes wf: "well_formed (Bounds img)"
    and small: "Dx (Bounds img) \<le> 2 ^ 52" "Dy (Bounds img) \<le> 2 ^ 52"
    and run: "OpaqueBounds img threshold = Some b"
  shows "b = ZR \<or>
     (0 \<le> X (Min_pt b) \<and> X (Min_pt b) \<le> X (Max_pt b) \<and> X (Max_pt b) < Dx (Bounds img)
      \<and> 0 \<le> Y (Min_pt b) \<and> Y (Min_pt b) \<le> Y (Max_pt b) \<and> Y (Max_pt b) < Dy (Bounds img))"
proof -
  define src where "src = newScanner img"
  have w0: "0 \<le> w src" and h0: "0 \<le> h src"
    using wf by (simp_all add: src_def newScanner_def well_formed_def Dx_def Dy_def)
  have wd: "w src = Dx (Bounds img)" and ht: "h src = Dy (Bounds img)"
    by (simp_all add: src_def newScanner_def)
  from run obtain pix first where
    fr: "for_rows (OpaqueBounds_row src threshold (4 * w src)) [0..h src - 1]
           (replicate (nat (4 * w src * h src)) 0, ZR, True) = Some (pix, b, first)"
    unfolding OpaqueBounds_def Let_def src_def [symmetric] parallel_def
      NewNRGBA_image_Rect [OF w0 h0]
    by (auto split: option.splits prod.splits)
  define I :: "uint8 list \<times> rectangle \<times> bool \<Rightarrow> bool"
    where "I = (\<lambda>st. found_within (w src) (h src) (snd st))"
  have "I (pix, b, first)"
  proof (rule for_rows_invariant [OF fr])
    show "I (replicate (nat (4 * w src * h src)) 0, ZR, True)"
      by (simp add: I_def found_within_def)
    fix y t t'
    assume y: "y \<in> set [0..h src - 1]" and t: "I t"
      and r: "OpaqueBounds_row src threshold (4 * w src) y t = Some t'"
    obtain p st where tt: "t = (p, st)" by (cases t)
    obtain p' st' where tt': "t' = (p', st')" by (cases t')
    from r obtain q where
      "OpaqueBounds_cols threshold q y [0..w src - 1] (y * (4 * w src)) st = Some st'"
      unfolding OpaqueBounds_row_def Let_def tt tt'
      by (cases st) (auto split: option.splits prod.splits)
    then have "found_within (w src) (h src) st'"
      by (rule OpaqueBounds_cols_within [rotated 4])
         (use y t small in \<open>simp_all add: I_def tt wd ht\<close>)
    then show "I t'" by (simp add: I_def tt')
  qed
  then show ?thesis
    by (cases first) (simp_all add: I_def found_within_def wd ht)
qed

lemma OpaquePolygon_cols_total:
  "0 \<le> i \<Longrightarrow> i + 4 * int (length xs) + 4 \<le> int (length pix)
     \<Longrightarrow> \<exists>out'. OpaquePolygon_cols threshold pix n k y xs i (foundLeft, out) = Some out'"
proof (induction xs arbitrary: i foundLeft out)
  case Nil
  then show ?case by simp
next
  case (Cons x xs)
  have rng: "0 \<le> i + 4 + 3 \<and> i + 4 + 3 < int (length pix)" using Cons.prems by simp
  have "\<And>fl o'. \<exists>out'. OpaquePolygon_cols threshold pix n k y xs (i + 4) (fl, o') = Some out'"
    by (rule Cons.IH) (use Cons.prems in simp_all)
  then show ?case using rng by (simp add: Let_def)
qed

lemma sampled_offset_bound:
  assumes "0 \<le> d" "d + 1 \<le> ht" "0 \<le> bw" "bw + 1 \<le> (wd :: int)"
  shows "d * 4 * bw + bw * 4 + 4 \<le> 4 * wd * ht"
proof -
  have "(d + 1) * bw \<le> ht * (wd - 1)" using assms by (intro mult_mono) simp_all
  moreover have "1 \<le> ht" using assms by simp
  ultimately show ?thesis by (simp add: algebra_simps)
qed

lemma OpaquePolygon_row_total:
  assumes len: "int (length pix) = 4 * wd * ht"
    and bx: "0 \<le> X (Min_pt b)" "X (Min_pt b) \<le> X (Max_pt b)" "X (Max_pt b) < wd"
    and yb: "0 \<le> Y (Min_pt b)" "Y (Max_pt b) < ht"
    and y: "Y (Min_pt b) \<le> int_of_float64 (math_Floor (f64_add (float64_of_int (Y (Min_pt b)))
                (f64_mul (float64_of_int k) yStep)))"
      "int_of_float64 (math_Floor (f64_add (float64_of_int (Y (Min_pt b)))
                (f64_mul (float64_of_int k) yStep))) \<le> Y (Max_pt b)"
  shows "\<exists>pix' out'. OpaquePolygon_row src threshold b n yStep (Dx b) k (pix, out) = Some (pix', out')
           \<and> length pix' = length pix"
proof -
  define y where "y = int_of_float64 (math_Floor (f64_add (float64_of_int (Y (Min_pt b)))
                (f64_mul (float64_of_int k) yStep)))"
  define bw where "bw = Dx b"
  define i where "i = (y - Y (Min_pt b)) * 4 * bw"
  have bw0: "0 \<le> bw" and bw1: "bw + 1 \<le> wd" using bx by (simp_all add: bw_def Dx_def)
  have d0: "0 \<le> y - Y (Min_pt b)" and d1: "y - Y (Min_pt b) + 1 \<le> ht"
    using y yb by (simp_all add: y_def [symmetric])
  have i0: "0 \<le> i" using d0 bw0 by (simp add: i_def)
  have bnd: "i + bw * 4 + 4 \<le> int (length pix)"
    unfolding i_def len by (rule sampled_offset_bound [OF d0 d1 bw0 bw1])
  define pix' where "pix' = overwrite pix (nat i) (scan src (X (Min_pt b)) y (X (Max_pt b)) (y + 1))"
  have sc: "scan_into src (X (Min_pt b)) y (X (Max_pt b)) (y + 1) pix i (i + bw * 4) = Some pix'"
    unfolding pix'_def
    by (rule scan_into_Some) (use i0 bnd bx in \<open>simp_all add: bw_def Dx_def\<close>)
  have lp: "length pix' = length pix"
    unfolding pix'_def using bnd i0 bx
    by (intro length_overwrite) (simp add: length_scan bw_def Dx_def)
  have "\<exists>out'. OpaquePolygon_cols threshold pix' n k y [X (Min_pt b)..X (Max_pt b) - 1] i (False, out)
          = Some out'"
    by (rule OpaquePolygon_cols_total) (use i0 bnd lp bx in \<open>simp_all add: bw_def Dx_def\<close>)
  then obtain out' where
    "OpaquePolygon_cols threshold pix' n k y [X (Min_pt b)..X (Max_pt b) - 1] i (False, out) = Some out'" ..
  then show ?thesis
    unfolding OpaquePolygon_row_def Let_def prod.case
    unfolding y_def [symmetric]
    unfolding bw_def [symmetric]
    unfolding i_def [symmetric]
    using sc lp by simp
qed

lemma OpaquePolygon_returns:
  assumes wf: "well_formed (Bounds img)"
    and small: "Dx (Bounds img) \<le> 2 ^ 52" "Dy (Bounds img) \<le> 2 ^ 52"
    and n: "2 \<le> n" "n \<le> 2 ^ 52"
    and run: "OpaqueBounds img threshold = Some b" and dy: "1 \<le> Dy b"
  shows "\<exists>out. OpaquePolygon img n threshold = Some out"
proof -
  define src where "src = newScanner img"
  have w0: "0 \<le> w src" and h0: "0 \<le> h src"
    using wf by (simp_all add: src_def newScanner_def well_formed_def Dx_def Dy_def)
  have wd: "w src = Dx (Bounds img)" and ht: "h src = Dy (Bounds img)"
    by (simp_all add: src_def newScanner_def)
  have "b \<noteq> ZR" using dy by (auto simp: ZR_def ZP_def Dy_def)
  with OpaqueBounds_within [OF wf small run]
  have b: "0 \<le> X (Min_pt b)" "X (Min_pt b) \<le> X (Max_pt b)" "X (Max_pt b) < w src"
    "0 \<le> Y (Min_pt b)" "Y (Min_pt b) \<le> Y (Max_pt b)" "Y (Max_pt b) < h src"
    by (simp_all add: wd ht)
  let ?yStep = "f64_div (float64_of_int (Dy b - 1)) (float64_of_int (n - 1))"
  define I :: "uint8 list \<times> point list \<Rightarrow> bool"
    where "I = (\<lambda>st. int (length (fst st)) = 4 * w src * h src)"
  have "\<exists>s'. for_rows (OpaquePolygon_row src threshold b n ?yStep (Dx b)) [0..n - 1]
           (replicate (nat (4 * w src * h src)) 0, replicate (nat (2 * n)) ZP) = Some s' \<and> I s'"
  proof (rule for_rows_total)
    show "I (replicate (nat (4 * w src * h src)) 0, replicate (nat (2 * n)) ZP)"
      using w0 h0 by (simp add: I_def)
    fix k s assume k: "k \<in> set [0..n - 1]" and s: "I s"
    obtain pix out where ps: "s = (pix, out)" by (cases s)
    have top: "Y (Min_pt b) + Dy b < 2 ^ 52" using b(6) small(2) by (simp add: Dy_def ht)
    have yr: "Y (Min_pt b) \<le> int_of_float64 (math_Floor (f64_add (float64_of_int (Y (Min_pt b)))
                (f64_mul (float64_of_int k) ?yStep)))"
      "int_of_float64 (math_Floor (f64_add (float64_of_int (Y (Min_pt b)))
                (f64_mul (float64_of_int k) ?yStep))) \<le> Y (Min_pt b) + Dy b"
      using sampled_row_range [OF n _ _ dy b(4) top, of k] k by simp_all
    have "\<exists>pix' out'. OpaquePolygon_row src threshold b n ?yStep (Dx b) k (pix, out) = Some (pix', out')
           \<and> length pix' = length pix"
      by (rule OpaquePolygon_row_total [where wd = "w src" and ht = "h src"])
         (use s b yr in \<open>simp_all add: I_def ps Dy_def\<close>)
    then show "\<exists>s'. OpaquePolygon_row src threshold b n ?yStep (Dx b) k s = Some s' \<and> I s'"
      using s by (auto simp: I_def ps)
  qed
  then obtain s' where "for_rows (OpaquePolygon_row src threshold b n ?yStep (Dx b)) [0..n - 1]
           (replicate (nat (4 * w src * h src)) 0, replicate (nat (2 * n)) ZP) = Some s'" by blast
  then show ?thesis
    using run n
    unfolding OpaquePolygon_def Let_def src_def [symmetric] parallel_def
      NewNRGBA_image_Rect [OF w0 h0]
    by (cases s') simp
qed

lemma OpaqueBounds_opaque_4x4:
  "OpaqueBounds opaque_4x4 0 = Some \<lparr>Min_pt = \<lparr>X = 0, Y = 0\<rparr>, Max_pt = \<lparr>X = 3, Y = 3\<rparr>\<rparr>"
  by code_simp

text \<open>
  C1, as the code has it. \<^verbatim>\<open>OpaquePolygon\<close> does not check \<open>n\<close> and has no error result.
  With \<open>n = 0\<close> it returns the empty slice for every image. For every \<open>n\<close> of at least
  2, a call that returns has exactly \<open>2 * n\<close> points, and the call does return when the
  bounding box found by \<^verbatim>\<open>OpaqueBounds\<close> spans at least two rows (sizes and \<open>n\<close> up to
  \<open>2 ^ 52\<close>, so that every conversion to \<^verbatim>\<open>float64\<close> is exact).
\<close>

theorem OpaquePolygon_point_count:
  "(well_formed (Bounds img) \<longrightarrow> OpaquePolygon img 0 threshold = Some [])
   \<and> (2 \<le> n \<and> OpaquePolygon img n threshold = Some out \<longrightarrow> int (length out) = 2 * n)
   \<and> (well_formed (Bounds img) \<and> Dx (Bounds img) \<le> 2 ^ 52 \<and> Dy (Bounds img) \<le> 2 ^ 52
        \<and> 2 \<le> n \<and> n \<le> 2 ^ 52 \<and> OpaqueBounds img threshold = Some b \<and> 1 \<le> Dy b
      \<longrightarrow> (\<exists>pts. OpaquePolygon img n threshold = Some pts \<and> int (length pts) = 2 * n))"
proof (intro conjI impI)
  assume "well_formed (Bounds img)"
  then show "OpaquePolygon img 0 threshold = Some []" by (rule OpaquePolygon_zero)
next
  assume "2 \<le> n \<and> OpaquePolygon img n threshold = Some out"
  then show "int (length out) = 2 * n" using OpaquePolygon_length [of img n threshold out] by simp
next
  assume h: "well_formed (Bounds img) \<and> Dx (Bounds img) \<le> 2 ^ 52 \<and> Dy (Bounds img) \<le> 2 ^ 52
        \<and> 2 \<le> n \<and> n \<le> 2 ^ 52 \<and> OpaqueBounds img threshold = Some b \<and> 1 \<le> Dy b"
  then have "\<exists>pts. OpaquePolygon img n threshold = Some pts"
    by (intro OpaquePolygon_returns [where b = b]) simp_all
  then obtain pts where p: "OpaquePolygon img n threshold = Some pts" ..
  then have "int (length pts) = 2 * n" using h by (intro OpaquePolygon_length) simp_all
  with p show "\<exists>pts. OpaquePolygon img n threshold = Some pts \<and> int (length pts) = 2 * n" by blast
qed

theorem OpaquePolygon_point_count_witness:
  "well_formed (Bounds opaque_4x4)
   \<and> OpaquePolygon opaque_4x4 0 0 = Some []
   \<and> OpaqueBounds opaque_4x4 0 = Some \<lparr>Min_pt = \<lparr>X = 0, Y = 0\<rparr>, Max_pt = \<lparr>X = 3, Y = 3\<rparr>\<rparr>
   \<and> OpaquePolygon opaque_4x4 3 0 =
       Some [\<lparr>X = 0, Y = 2\<rparr>, \<lparr>X = 0, Y = 1\<rparr>, \<lparr>X = 0, Y = 0\<rparr>,
             \<lparr>X = 1, Y = 0\<rparr>, \<lparr>X = 1, Y = 1\<rparr>, \<lparr>X = 1, Y = 2\<rparr>]
   \<and> (\<exists>pts. OpaquePolygon opaque_4x4 3 0 = Some pts \<and> int (length pts) = 2 * 3)"
proof -
  have wf: "well_formed (Bounds opaque_4x4)"
    by (simp add: opaque_4x4_def image_of_def well_formed_def)
  have sz: "Dx (Bounds opaque_4x4) \<le> 2 ^ 52" "Dy (Bounds opaque_4x4) \<le> 2 ^ 52"
    by (simp_all add: opaque_4x4_def image_of_def Dx_def Dy_def)
  have dy: "1 \<le> Dy \<lparr>Min_pt = \<lparr>X = 0, Y = 0\<rparr>, Max_pt = \<lparr>X = 3, Y = 3\<rparr>\<rparr>"
    by (simp add: Dy_def)
  note t = OpaquePolygon_point_count [of opaque_4x4 0 3
      "[\<lparr>X = 0, Y = 2\<rparr>, \<lparr>X = 0, Y = 1\<rparr>, \<lparr>X = 0, Y = 0\<rparr>,
        \<lparr>X = 1, Y = 0\<rparr>, \<lparr>X = 1, Y = 1\<rparr>, \<lparr>X = 1, Y = 2\<rparr>]"
      "\<lparr>Min_pt = \<lparr>X = 0, Y = 0\<rparr>, Max_pt = \<lparr>X = 3, Y = 3\<rparr>\<rparr>"]
  have z: "OpaquePolygon opaque_4x4 0 0 = Some []" using t wf by blast
  have "\<exists>pts. OpaquePolygon opaque_4x4 3 0 = Some pts \<and> int (length pts) = 2 * 3"
    using t wf sz dy OpaqueBounds_opaque_4x4 by simp
  then show ?thesis
    using wf z OpaqueBounds_opaque_4x4 OpaquePolygon_opaque_4x4 by simp
qed

text \<open>
  The claim as stated fails: \<open>n = 0\<close> is below 2 and is not rejected, and with \<open>n = 2\<close>
  the call panics on the 2 by 2 image whose top row is opaque (the second sample lies
  above the bounding box, so the slice offset is negative).
\<close>

theorem OpaquePolygon_not_rejected:
  "OpaquePolygon transparent_4x4 0 0 = Some [] \<and> OpaquePolygon top_row_2x2 2 0 = None"
  by code_simp

section \<open>Clone and Crop\<close>

lemma scan_segment: "scan s x0 y x1 y1 = segment (pixel_bytes (image_img s)) x0 x1 y"
  by (simp add: scan_def segment_def pixel_bytes_def)

lemma length_pixel_bytes: "length (pixel_bytes img x y) = 4"
  by (simp add: pixel_bytes_def color_bytes_def)

lemma length_segment:
  "(\<And>x. length (F x y) = 4) \<Longrightarrow> length (segment F a b y) = 4 * nat (b - a)"
  unfolding segment_def by (subst length_concat_const [where n = 4]) simp_all

lemma overwrite_append:
  "length bs \<le> length rest \<Longrightarrow>
   overwrite (pre @ rest) (length pre) bs = pre @ bs @ drop (length bs) rest"
  by (simp add: overwrite_def)

lemma copy_rows:
  assumes fn: "\<And>y pix. fn y pix =
      scan_into src x0 y x1 (y + 1) pix ((y - y0) * S) ((y - y0) * S + S)"
    and S: "S = 4 * (x1 - x0)" and x: "x0 \<le> x1"
  shows "y0 \<le> a \<Longrightarrow> a \<le> b + 1 \<Longrightarrow> int (length pre) = (a - y0) * S
     \<Longrightarrow> int (length rest) = (b + 1 - a) * S
     \<Longrightarrow> for_rows fn [a..b] (pre @ rest)
           = Some (pre @ concat (map (\<lambda>y. scan src x0 y x1 (y + 1)) [a..b]))"
proof (induction "nat (b + 1 - a)" arbitrary: a pre rest)
  case 0
  then have "b < a" by simp
  moreover from 0 have "length rest = 0" by simp
  ultimately show ?case by simp
next
  case (Suc n)
  then have ab: "a \<le> b" by simp
  have S0: "0 \<le> S" using S x by simp
  let ?row = "scan src x0 a x1 (a + 1)"
  have lrow: "int (length ?row) = S" using S x by (simp add: length_scan)
  have "S \<le> (b + 1 - a) * S" using ab S0 by (simp add: mult_le_cancel_right1)
  then have rest_ge: "length ?row \<le> length rest" using Suc.prems(4) lrow by linarith
  have i0: "0 \<le> (a - y0) * S" using Suc.prems(1) S0 by simp
  have "fn a (pre @ rest) = Some (overwrite (pre @ rest) (nat ((a - y0) * S)) ?row)"
    unfolding fn
    by (rule scan_into_Some) (use i0 S x Suc.prems(3,4) rest_ge lrow in simp_all)
  also have "nat ((a - y0) * S) = length pre" using Suc.prems(3) by simp
  finally have step: "fn a (pre @ rest) = Some ((pre @ ?row) @ drop (length ?row) rest)"
    by (simp add: overwrite_append [OF rest_ge])
  have "for_rows fn [a + 1..b] ((pre @ ?row) @ drop (length ?row) rest)
      = Some ((pre @ ?row) @ concat (map (\<lambda>y. scan src x0 y x1 (y + 1)) [a + 1..b]))"
  proof (rule Suc.hyps(1))
    show "n = nat (b + 1 - (a + 1))" using Suc.hyps(2) by simp
    show "y0 \<le> a + 1" using Suc.prems(1) by simp
    show "a + 1 \<le> b + 1" using ab by simp
    show "int (length (pre @ ?row)) = (a + 1 - y0) * S"
      using Suc.prems(3) lrow by (simp add: algebra_simps)
    show "int (length (drop (length ?row) rest)) = (b + 1 - (a + 1)) * S"
      using Suc.prems(4) lrow rest_ge by (simp add: algebra_simps of_nat_diff)
  qed
  then show ?case using step by (simp add: upto_rec1 [OF ab])
qed

lemma region_scan:
  "concat (map (\<lambda>y. scan src x0 y x1 (y + 1)) [a..b])
     = region (pixel_bytes (image_img src)) \<lparr>Min_pt = \<lparr>X = x0, Y = a\<rparr>, Max_pt = \<lparr>X = x1, Y = b + 1\<rparr>\<rparr>"
  by (simp add: region_def scan_segment)

lemma Clone_region:
  assumes "well_formed (Bounds img)"
  shows "Clone img =
     Some \<lparr>Pix = region (pixel_bytes img)
                   \<lparr>Min_pt = \<lparr>X = 0, Y = 0\<rparr>, Max_pt = \<lparr>X = Dx (Bounds img), Y = Dy (Bounds img)\<rparr>\<rparr>,
           Stride = 4 * Dx (Bounds img),
           Rect = \<lparr>Min_pt = \<lparr>X = 0, Y = 0\<rparr>, Max_pt = \<lparr>X = Dx (Bounds img), Y = Dy (Bounds img)\<rparr>\<rparr>\<rparr>"
proof -
  define src where "src = newScanner img"
  have w0: "0 \<le> w src" and h0: "0 \<le> h src"
    using assms by (simp_all add: src_def newScanner_def well_formed_def Dx_def Dy_def)
  have wd: "w src = Dx (Bounds img)" and ht: "h src = Dy (Bounds img)"
    and im: "image_img src = img"
    by (simp_all add: src_def newScanner_def)
  let ?fn = "\<lambda>y pix. let i = y * (4 * w src) in scan_into src 0 y (w src) (y + 1) pix i (i + w src * 4)"
  have "for_rows ?fn [0..h src - 1] ([] @ replicate (nat (4 * w src * h src)) 0)
      = Some ([] @ concat (map (\<lambda>y. scan src 0 y (w src) (y + 1)) [0..h src - 1]))"
    by (rule copy_rows [where ?y0.0 = 0 and S = "4 * w src"])
       (use w0 h0 in \<open>simp_all add: Let_def algebra_simps\<close>)
  then show ?thesis
    unfolding Clone_def Let_def src_def [symmetric] parallel_def NewNRGBA_image_Rect [OF w0 h0]
    by (simp add: region_scan im wd ht)
qed

lemma Intersect_In:
  "point_In p (Intersect r s) \<longleftrightarrow> point_In p r \<and> point_In p s"
  by (auto simp: Intersect_def Let_def point_In_def Empty_def ZR_def ZP_def)

lemma Intersect_within:
  assumes "\<not> Empty (rectangle_Sub (Intersect r s) (Min_pt s))"
  shows "0 \<le> X (Min_pt (rectangle_Sub (Intersect r s) (Min_pt s)))"
    and "X (Max_pt (rectangle_Sub (Intersect r s) (Min_pt s))) \<le> Dx s"
    and "0 \<le> Y (Min_pt (rectangle_Sub (Intersect r s) (Min_pt s)))"
    and "Y (Max_pt (rectangle_Sub (Intersect r s) (Min_pt s))) \<le> Dy s"
  using assms
  by (auto simp: Intersect_def Let_def Empty_def ZR_def ZP_def rectangle_Sub_def Dx_def Dy_def
      split: if_splits)

lemma Crop_nonempty:
  assumes "r = rectangle_Sub (Intersect rect (Bounds img)) (Min_pt (Bounds img))"
    and "\<not> Empty r"
  shows "Crop img rect =
     Some \<lparr>Pix = region (pixel_bytes img) r, Stride = 4 * Dx r,
           Rect = \<lparr>Min_pt = \<lparr>X = 0, Y = 0\<rparr>, Max_pt = \<lparr>X = Dx r, Y = Dy r\<rparr>\<rparr>\<rparr>"
proof -
  define src where "src = newScanner img"
  have im: "image_img src = img" by (simp add: src_def newScanner_def)
  have dx: "0 < Dx r" and dy: "0 < Dy r"
    using assms(2) by (simp_all add: Empty_def Dx_def Dy_def)
  then have w0: "0 \<le> Dx r" and h0: "0 \<le> Dy r" by simp_all
  let ?fn = "\<lambda>y pix. let i = (y - Y (Min_pt r)) * (4 * Dx r)
                      in scan_into src (X (Min_pt r)) y (X (Max_pt r)) (y + 1) pix i (i + Dx r * 4)"
  have run: "for_rows ?fn [Y (Min_pt r)..Y (Max_pt r) - 1] ([] @ replicate (nat (4 * Dx r * Dy r)) 0)
      = Some ([] @ concat (map (\<lambda>y. scan src (X (Min_pt r)) y (X (Max_pt r)) (y + 1))
                 [Y (Min_pt r)..Y (Max_pt r) - 1]))"
  proof (rule copy_rows [where ?y0.0 = "Y (Min_pt r)" and S = "4 * Dx r"])
    show "4 * Dx r = 4 * (X (Max_pt r) - X (Min_pt r))" by (simp add: Dx_def)
    show "X (Min_pt r) \<le> X (Max_pt r)" using dx by (simp add: Dx_def)
    show "Y (Min_pt r) \<le> Y (Max_pt r) - 1 + 1" using dy by (simp add: Dy_def)
    have "0 \<le> 4 * Dx r * Dy r" using w0 h0 by simp
    moreover have "Y (Max_pt r) - 1 + 1 - Y (Min_pt r) = Dy r" by (simp add: Dy_def)
    ultimately show "int (length (replicate (nat (4 * Dx r * Dy r)) (0 :: uint8)))
        = (Y (Max_pt r) - 1 + 1 - Y (Min_pt r)) * (4 * Dx r)"
      by (simp only: length_replicate) simp
  qed (simp_all add: Let_def mult.commute)
  have reg: "concat (map (\<lambda>y. scan src (X (Min_pt r)) y (X (Max_pt r)) (y + 1))
                 [Y (Min_pt r)..Y (Max_pt r) - 1]) = region (pixel_bytes img) r"
    by (simp add: region_def scan_segment im)
  show ?thesis
    unfolding Crop_def Let_def assms(1) [symmetric] src_def [symmetric] parallel_def
      NewNRGBA_image_Rect [OF w0 h0]
    using assms(2) run by (simp add: reg Let_def)
qed

lemma length_region:
  assumes "\<And>x y. length (F x y) = 4" and "X (Min_pt r) \<le> X (Max_pt r)" "Y (Min_pt r) \<le> Y (Max_pt r)"
  shows "int (length (region F r)) = 4 * Dx r * Dy r"
proof -
  have "length (region F r) = (4 * nat (Dx r)) * length [Y (Min_pt r)..Y (Max_pt r) - 1]"
    unfolding region_def
    by (rule length_concat_const) (simp add: length_segment [OF assms(1)] Dx_def)
  then show ?thesis using assms(2,3) by (simp add: Dx_def Dy_def)
qed

text \<open>
  C8. \<^verbatim>\<open>Crop\<close> intersects the rectangle with the source bounds (a point is in the
  intersection exactly when it is in both) and moves it to coordinates relative to the
  source's corner. When that rectangle is empty the result is the empty buffer, and no
  error is raised. Otherwise the rectangle lies inside the source, and the result is a
  new buffer of its size, at the origin, holding the source pixels of the rectangle row
  by row.
\<close>

theorem Crop_intersection:
  "(let r = rectangle_Sub (Intersect rect (Bounds img)) (Min_pt (Bounds img)) in
      (Empty r \<longrightarrow> Crop img rect = Some empty_NRGBA)
    \<and> (\<not> Empty r \<longrightarrow>
         Crop img rect =
           Some \<lparr>Pix = region (pixel_bytes img) r, Stride = 4 * Dx r,
                 Rect = \<lparr>Min_pt = \<lparr>X = 0, Y = 0\<rparr>, Max_pt = \<lparr>X = Dx r, Y = Dy r\<rparr>\<rparr>\<rparr>
         \<and> int (length (region (pixel_bytes img) r)) = 4 * Dx r * Dy r
         \<and> 0 \<le> X (Min_pt r) \<and> X (Max_pt r) \<le> Dx (Bounds img)
         \<and> 0 \<le> Y (Min_pt r) \<and> Y (Max_pt r) \<le> Dy (Bounds img)))
   \<and> (point_In p (Intersect rect (Bounds img)) \<longleftrightarrow> point_In p rect \<and> point_In p (Bounds img))"
proof -
  define r where "r = rectangle_Sub (Intersect rect (Bounds img)) (Min_pt (Bounds img))"
  have e: "Crop img rect = Some empty_NRGBA" if "Empty r"
    using that by (simp add: Crop_def r_def)
  have n: "Crop img rect =
           Some \<lparr>Pix = region (pixel_bytes img) r, Stride = 4 * Dx r,
                 Rect = \<lparr>Min_pt = \<lparr>X = 0, Y = 0\<rparr>, Max_pt = \<lparr>X = Dx r, Y = Dy r\<rparr>\<rparr>\<rparr>"
    if "\<not> Empty r" using r_def that by (rule Crop_nonempty)
  have l: "int (length (region (pixel_bytes img) r)) = 4 * Dx r * Dy r" if "\<not> Empty r"
    by (rule length_region) (use that in \<open>simp_all add: length_pixel_bytes Empty_def\<close>)
  have i: "0 \<le> X (Min_pt r) \<and> X (Max_pt r) \<le> Dx (Bounds img)
         \<and> 0 \<le> Y (Min_pt r) \<and> Y (Max_pt r) \<le> Dy (Bounds img)" if "\<not> Empty r"
    using Intersect_within [of rect "Bounds img"] that unfolding r_def by simp
  show ?thesis unfolding Let_def r_def [symmetric] using e n l i Intersect_In by blast
qed

theorem Crop_intersection_witness:
  "\<not> Empty (rectangle_Sub (Intersect \<lparr>Min_pt = \<lparr>X = 1, Y = 1\<rparr>, Max_pt = \<lparr>X = 5, Y = 2\<rparr>\<rparr> (Bounds block_3x3))
              (Min_pt (Bounds block_3x3)))
   \<and> Crop block_3x3 \<lparr>Min_pt = \<lparr>X = 1, Y = 1\<rparr>, Max_pt = \<lparr>X = 5, Y = 2\<rparr>\<rparr> =
       Some \<lparr>Pix = [1, 2, 3, 255, 1, 2, 3, 255], Stride = 8,
             Rect = \<lparr>Min_pt = \<lparr>X = 0, Y = 0\<rparr>, Max_pt = \<lparr>X = 2, Y = 1\<rparr>\<rparr>\<rparr>
   \<and> Empty (rectangle_Sub (Intersect \<lparr>Min_pt = \<lparr>X = 5, Y = 5\<rparr>, Max_pt = \<lparr>X = 2, Y = 7\<rparr>\<rparr> (Bounds block_3x3))
              (Min_pt (Bounds block_3x3)))
   \<and> Crop block_3x3 \<lparr>Min_pt = \<lparr>X = 5, Y = 5\<rparr>, Max_pt = \<lparr>X = 2, Y = 7\<rparr>\<rparr> = Some empty_NRGBA"
proof -
  have r1: "rectangle_Sub (Intersect \<lparr>Min_pt = \<lparr>X = 1, Y = 1\<rparr>, Max_pt = \<lparr>X = 5, Y = 2\<rparr>\<rparr> (Bounds block_3x3))
              (Min_pt (Bounds block_3x3)) = \<lparr>Min_pt = \<lparr>X = 1, Y = 1\<rparr>, Max_pt = \<lparr>X = 3, Y = 2\<rparr>\<rparr>"
    by (simp add: block_3x3_def image_of_def Intersect_def Empty_def rectangle_Sub_def)
  have r2: "rectangle_Sub (Intersect \<lparr>Min_pt = \<lparr>X = 5, Y = 5\<rparr>, Max_pt = \<lparr>X = 2, Y = 7\<rparr>\<rparr> (Bounds block_3x3))
              (Min_pt (Bounds block_3x3)) = ZR"
    by (simp add: block_3x3_def image_of_def Intersect_def Empty_def rectangle_Sub_def ZR_def ZP_def)
  have px: "region (pixel_bytes block_3x3) \<lparr>Min_pt = \<lparr>X = 1, Y = 1\<rparr>, Max_pt = \<lparr>X = 3, Y = 2\<rparr>\<rparr>
      = [1, 2, 3, 255, 1, 2, 3, 255]"
    by code_simp
  show ?thesis
    using Crop_intersection [of "\<lparr>Min_pt = \<lparr>X = 1, Y = 1\<rparr>, Max_pt = \<lparr>X = 5, Y = 2\<rparr>\<rparr>" block_3x3 ZP]
      Crop_intersection [of "\<lparr>Min_pt = \<lparr>X = 5, Y = 5\<rparr>, Max_pt = \<lparr>X = 2, Y = 7\<rparr>\<rparr>" block_3x3 ZP]
    unfolding Let_def r1 r2 px
    by (simp add: Empty_def ZR_def ZP_def Dx_def Dy_def)
qed

section \<open>The pixel arithmetic of Overlay\<close>

lemma rnd_0: "rnd 0 = Finite 0"
  by (simp add: rnd_def)

lemma rnd_1: "rnd 1 = Finite 1"
  using rnd_of_int [of 1] by simp

lemma rnd_255: "rnd 255 = Finite 255"
  using rnd_of_int [of 255] by simp

lemma unsigned_bounds: "0 \<le> (unsigned (b :: uint8) :: rat)" "(unsigned (b :: uint8) :: rat) \<le> 255"
proof -
  have "(of_int 0 :: rat) \<le> of_int (uint b)" by (simp only: of_int_le_iff) simp
  then show "0 \<le> (unsigned b :: rat)" by simp
  have "uint b \<le> 255" using uint8_bounds(2) [of b] by simp
  then have "(of_int (uint b) :: rat) \<le> of_int 255" by (simp only: of_int_le_iff)
  then show "(unsigned b :: rat) \<le> 255" by simp
qed

lemma rnd_unsigned: "rnd (unsigned (b :: uint8)) = Finite (unsigned b)"
  using float64_of_uint8_eq [of b] by (simp add: float64_of_uint8_def)

lemma rnd_255_minus: "rnd (255 - unsigned (b :: uint8)) = Finite (255 - unsigned b)"
proof -
  have "\<bar>255 - uint b\<bar> \<le> 255" using uint8_bounds [of b] by linarith
  then have "\<bar>255 - uint b\<bar> < 2 ^ 53" by simp
  then have "rnd (of_int (255 - uint b)) = Finite (of_int (255 - uint b))" by (rule rnd_of_int)
  then show ?thesis by simp
qed

lemma rnd_255_times:
  "rnd (65025 - 255 * unsigned (b :: uint8)) = Finite (65025 - 255 * unsigned b)"
proof -
  have "\<bar>65025 - 255 * uint b\<bar> \<le> 65025" using uint8_bounds [of b] by linarith
  then have "\<bar>65025 - 255 * uint b\<bar> < 2 ^ 53" by simp
  then have "rnd (of_int (65025 - 255 * uint b)) = Finite (of_int (65025 - 255 * uint b))"
    by (rule rnd_of_int)
  then show ?thesis by simp
qed

lemma rnd_255_quotient:
  "rnd ((65025 - 255 * unsigned (b :: uint8)) / 255) = Finite (255 - unsigned b)"
proof -
  have "(65025 - 255 * (unsigned b :: rat)) / 255 = 255 - unsigned b" by (simp add: field_simps)
  then show ?thesis by (simp only: rnd_255_minus)
qed

lemma uint8_of_float64_255: "uint8_of_float64 (Finite 255) = 255"
  by (simp add: uint8_of_float64_def trunc_def)

lemma Overlay_pixel_opaque:
  "Overlay_pixel (Finite 1) p0 p1 p2 p3 s0 s1 s2 255 = [s0, s1, s2, 255]"
  by (simp add: Overlay_pixel_def Let_def float64_of_uint8_eq f64_sub_def f64_neg_def
      rnd_0 rnd_1 rnd_255 rnd_unsigned rnd_255_minus rnd_255_times rnd_255_quotient
      uint8_of_float64_unsigned uint8_of_float64_255)

lemma coef_positive:
  assumes "p3 \<noteq> (0 :: uint8)"
  shows "\<exists>c. rnd (unsigned p3 / 255) = Finite c \<and> 0 < c \<and> rnd c = Finite c"
proof -
  have "uint p3 \<noteq> 0" using assms by (simp add: uint_0_iff)
  then have "1 \<le> uint p3" using uint8_bounds(1) [of p3] by linarith
  then have "(of_int 1 :: rat) \<le> of_int (uint p3)" by (simp only: of_int_le_iff)
  then have u1: "1 \<le> (unsigned p3 :: rat)" by simp
  have "(2::rat) powi (- 1022) \<le> 2 powi (- 8)" by (rule power_int_increasing) simp_all
  also have "\<dots> \<le> 1 / 255" by (simp add: power_int_minus)
  also have "\<dots> \<le> unsigned p3 / 255" using u1 by simp
  finally have lo: "2 powi (- 1022) \<le> (unsigned p3 :: rat) / 255" .
  have "(unsigned p3 :: rat) / 255 \<le> 1" using unsigned_bounds(2) [of p3] by simp
  also have "(1::rat) = 2 powi 0" by simp
  also have "\<dots> < 2 powi 1023" by (rule power_int_strict_increasing) simp_all
  finally have hi: "(unsigned p3 :: rat) / 255 < 2 powi 1023" .
  from rnd_normal_pos [OF lo hi] obtain c where c: "rnd (unsigned p3 / 255) = Finite c" "0 < c"
    by blast
  have "0 < (unsigned p3 :: rat) / 255" using u1 by simp
  then have "rnd c = Finite c" using c(1) by (rule rnd_fixed)
  with c show ?thesis by blast
qed

lemma Overlay_pixel_alpha_kept:
  assumes "f64_mul opacity (float64_of_uint8 s3) = Finite 0"
    and "f64_mul (float64_of_uint8 s3) opacity = Finite 0"
  shows "Overlay_pixel opacity p0 p1 p2 p3 s0 s1 s2 s3 ! 3 = p3"
proof -
  have "min (unsigned p3) (255 :: rat) = unsigned p3" using unsigned_bounds(2) [of p3] by simp
  then show ?thesis
    using assms
    by (simp add: Overlay_pixel_def Let_def f64_sub_def f64_neg_def float64_of_uint8_eq
        rnd_0 rnd_255_minus rnd_unsigned uint8_of_float64_unsigned)
qed

lemma Overlay_pixel_background_kept:
  assumes "f64_mul opacity (float64_of_uint8 s3) = Finite 0"
    and "f64_mul (float64_of_uint8 s3) opacity = Finite 0"
    and "p3 \<noteq> 0"
  shows "Overlay_pixel opacity p0 p1 p2 p3 s0 s1 s2 s3 = [p0, p1, p2, p3]"
proof -
  from coef_positive [OF assms(3)] obtain c
    where c: "rnd (unsigned p3 / 255) = Finite c" "0 < c" "rnd c = Finite c" by blast
  have m: "min (unsigned p3) (255 :: rat) = unsigned p3" using unsigned_bounds(2) [of p3] by simp
  show ?thesis
    using assms(1,2) c m
    by (simp add: Overlay_pixel_def Let_def f64_sub_def f64_neg_def float64_of_uint8_eq
        rnd_0 rnd_1 rnd_255_minus rnd_unsigned uint8_of_float64_unsigned)
qed

lemma clamp_opacity_0: "math_Min (math_Max (Finite 0) (Finite 0)) (Finite 1) = Finite 0"
  by simp

lemma clamp_opacity_1: "math_Min (math_Max (Finite 1) (Finite 0)) (Finite 1) = Finite 1"
  by simp

lemma clamp_idem:
  "math_Min (math_Max (math_Min (math_Max p (Finite 0)) (Finite 1)) (Finite 0)) (Finite 1)
     = math_Min (math_Max p (Finite 0)) (Finite 1)"
  by (cases p) (simp_all add: min_def max_def)

lemma no_contribution_opacity_0:
  "f64_mul (Finite 0) (float64_of_uint8 s3) = Finite 0"
  "f64_mul (float64_of_uint8 s3) (Finite 0) = Finite 0"
  by (simp_all add: float64_of_uint8_eq rnd_0)

lemma no_contribution_alpha_0:
  "f64_mul (Finite 1) (float64_of_uint8 0) = Finite 0"
  "f64_mul (float64_of_uint8 0) (Finite 1) = Finite 0"
  by (simp_all add: float64_of_uint8_eq rnd_0)

lemma Overlay_pixel_shape:
  "\<exists>c0 c1 c2 c3. Overlay_pixel opacity p0 p1 p2 p3 s0 s1 s2 s3 = [c0, c1, c2, c3]"
  by (simp add: Overlay_pixel_def Let_def)

section \<open>Rows of Overlay and Paste on a buffer split at the overlapped run\<close>

lemma four_bytes:
  assumes "length seg = 4 * Suc n"
  obtains p0 p1 p2 p3 seg' where "seg = p0 # p1 # p2 # p3 # seg'" "length seg' = 4 * n"
proof -
  from assms obtain p0 t0 where a: "seg = p0 # t0" by (cases seg) auto
  with assms obtain p1 t1 where b: "t0 = p1 # t1" by (cases t0) auto
  with a assms obtain p2 t2 where c: "t1 = p2 # t2" by (cases t1) auto
  with a b assms obtain p3 t3 where d: "t2 = p3 # t3" by (cases t2) auto
  from a b c d assms have "seg = p0 # p1 # p2 # p3 # t3" "length t3 = 4 * n" by auto
  then show ?thesis by (rule that)
qed

lemma Overlay_cols_segment:
  "length seg = 4 * length xs \<Longrightarrow> length ss = 4 * length xs \<Longrightarrow>
   Overlay_cols opacity (spre @ ss @ spost) xs (int (length pre)) (int (length spre))
       (pre @ seg @ post)
     = Some (pre @ blend_bytes opacity seg ss @ post)"
proof (induction xs arbitrary: pre spre seg ss)
  case Nil
  then show ?case by simp
next
  case (Cons x xs)
  have "length seg = 4 * Suc (length xs)" using Cons.prems(1) by simp
  then obtain p0 p1 p2 p3 seg'
    where seg: "seg = p0 # p1 # p2 # p3 # seg'" and lseg: "length seg' = 4 * length xs"
    by (rule four_bytes)
  have "length ss = 4 * Suc (length xs)" using Cons.prems(2) by simp
  then obtain s0 s1 s2 s3 ss'
    where ss: "ss = s0 # s1 # s2 # s3 # ss'" and lss: "length ss' = 4 * length xs"
    by (rule four_bytes)
  obtain c0 c1 c2 c3 where c: "Overlay_pixel opacity p0 p1 p2 p3 s0 s1 s2 s3 = [c0, c1, c2, c3]"
    using Overlay_pixel_shape by blast
  have n1: "nat (int (length pre) + 1) = Suc (length pre)"
    and n2: "nat (int (length pre) + 2) = Suc (Suc (length pre))"
    and n3: "nat (int (length pre) + 3) = Suc (Suc (Suc (length pre)))"
    and m1: "nat (int (length spre) + 1) = Suc (length spre)"
    and m2: "nat (int (length spre) + 2) = Suc (Suc (length spre))"
    and m3: "nat (int (length spre) + 3) = Suc (Suc (Suc (length spre)))"
    by simp_all
  have ih: "Overlay_cols opacity ((spre @ [s0, s1, s2, s3]) @ ss' @ spost) xs
        (int (length (pre @ [c0, c1, c2, c3]))) (int (length (spre @ [s0, s1, s2, s3])))
        ((pre @ [c0, c1, c2, c3]) @ seg' @ post)
      = Some ((pre @ [c0, c1, c2, c3]) @ blend_bytes opacity seg' ss' @ post)"
    by (rule Cons.IH [OF lseg lss])
  have i4: "int (length (pre @ [c0, c1, c2, c3])) = int (length pre) + 4"
    and j4: "int (length (spre @ [s0, s1, s2, s3])) = int (length spre) + 4"
    by simp_all
  have step: "Overlay_cols opacity (spre @ ss @ spost) (x # xs) (int (length pre))
        (int (length spre)) (pre @ seg @ post)
      = Overlay_cols opacity (spre @ ss @ spost) xs (int (length pre) + 4) (int (length spre) + 4)
          (pre @ c0 # c1 # c2 # c3 # seg' @ post)"
    unfolding Overlay_cols.simps
    by (simp add: seg ss n1 n2 n3 m1 m2 m3 nth_append c Let_def list_update_append
        del: Overlay_cols.simps)
  show ?case
    unfolding step using ih unfolding i4 j4 by (simp add: seg ss c)
qed

lemma segment_split:
  assumes "a \<le> m" "m \<le> b"
  shows "segment F a b y = segment F a m y @ segment F m b y"
proof (cases "m = b")
  case True
  then show ?thesis by (simp add: segment_def)
next
  case False
  with assms have "m \<le> b - 1" by simp
  with assms(1) have "[a..b - 1] = [a..m - 1] @ [m..b - 1]" by (rule upto_split1)
  then show ?thesis by (simp add: segment_def)
qed

lemma segment_cong:
  "(\<And>x. a \<le> x \<Longrightarrow> x < b \<Longrightarrow> F x y = F' x y') \<Longrightarrow> segment F a b y = segment F' a b y'"
  unfolding segment_def by (rule arg_cong [where f = concat]) (rule map_cong, auto)

lemma region_cong:
  assumes "\<And>x y. point_In \<lparr>X = x, Y = y\<rparr> r \<Longrightarrow> F x y = F' x y"
  shows "region F r = region F' r"
proof -
  have "map (segment F (X (Min_pt r)) (X (Max_pt r))) [Y (Min_pt r)..Y (Max_pt r) - 1]
      = map (segment F' (X (Min_pt r)) (X (Max_pt r))) [Y (Min_pt r)..Y (Max_pt r) - 1]"
  proof (rule map_cong [OF refl])
    fix y assume "y \<in> set [Y (Min_pt r)..Y (Max_pt r) - 1]"
    then have y: "Y (Min_pt r) \<le> y" "y < Y (Max_pt r)" by simp_all
    show "segment F (X (Min_pt r)) (X (Max_pt r)) y = segment F' (X (Min_pt r)) (X (Max_pt r)) y"
      by (rule segment_cong) (rule assms, simp add: point_In_def y)
  qed
  then show ?thesis unfolding region_def by (rule arg_cong [where f = concat])
qed

lemma region_row_update:
  assumes len: "\<And>x y. length (F x y) = 4"
    and y: "0 \<le> y" "y < ht" and x: "0 \<le> x0" "x0 \<le> x1" "x1 \<le> wd"
    and agree: "\<And>x y'. \<not> (y' = y \<and> x0 \<le> x \<and> x < x1) \<Longrightarrow> F' x y' = F x y'"
  shows "\<exists>pre post.
      region F \<lparr>Min_pt = \<lparr>X = 0, Y = 0\<rparr>, Max_pt = \<lparr>X = wd, Y = ht\<rparr>\<rparr> = pre @ segment F x0 x1 y @ post
    \<and> region F' \<lparr>Min_pt = \<lparr>X = 0, Y = 0\<rparr>, Max_pt = \<lparr>X = wd, Y = ht\<rparr>\<rparr> = pre @ segment F' x0 x1 y @ post
    \<and> int (length pre) = y * (4 * wd) + x0 * 4"
proof -
  define above where "above = concat (map (segment F 0 wd) [0..y - 1])"
  define below where "below = concat (map (segment F 0 wd) [y + 1..ht - 1])"
  have rows: "[0..ht - 1] = [0..y - 1] @ y # [y + 1..ht - 1]"
    by (rule upto_split3) (use y in simp_all)
  have row: "segment H 0 wd y = segment H 0 x0 y @ segment H x0 x1 y @ segment H x1 wd y" for H
    using segment_split [of 0 x0 wd H y] segment_split [of x0 x1 wd H y] x by simp
  have above': "concat (map (segment F' 0 wd) [0..y - 1]) = above"
    unfolding above_def
    by (rule arg_cong [where f = concat], rule map_cong [OF refl], rule segment_cong)
       (simp add: agree)
  have below': "concat (map (segment F' 0 wd) [y + 1..ht - 1]) = below"
    unfolding below_def
    by (rule arg_cong [where f = concat], rule map_cong [OF refl], rule segment_cong)
       (simp add: agree)
  have left': "segment F' 0 x0 y = segment F 0 x0 y"
    by (rule segment_cong) (simp add: agree)
  have right': "segment F' x1 wd y = segment F x1 wd y"
    by (rule segment_cong) (simp add: agree)
  have F: "region F \<lparr>Min_pt = \<lparr>X = 0, Y = 0\<rparr>, Max_pt = \<lparr>X = wd, Y = ht\<rparr>\<rparr>
      = (above @ segment F 0 x0 y) @ segment F x0 x1 y @ (segment F x1 wd y @ below)"
    by (simp add: region_def rows row [of F] above_def below_def)
  have F': "region F' \<lparr>Min_pt = \<lparr>X = 0, Y = 0\<rparr>, Max_pt = \<lparr>X = wd, Y = ht\<rparr>\<rparr>
      = (above @ segment F 0 x0 y) @ segment F' x0 x1 y @ (segment F x1 wd y @ below)"
    by (simp add: region_def rows row [of F'] above' below' left' right')
  have "length above = (4 * nat wd) * length [0..y - 1]"
    unfolding above_def
    by (rule length_concat_const) (simp add: length_segment [OF len])
  then have "int (length above) = y * (4 * wd)" using y x by simp
  moreover have "int (length (segment F 0 x0 y)) = x0 * 4"
    using x by (simp add: length_segment [OF len])
  ultimately have "int (length (above @ segment F 0 x0 y)) = y * (4 * wd) + x0 * 4" by simp
  with F F' show ?thesis by blast
qed

lemma for_rows_upto:
  assumes step: "\<And>y s. a0 \<le> y \<Longrightarrow> y \<le> b \<Longrightarrow> P y s \<Longrightarrow> \<exists>s'. fn y s = Some s' \<and> P (y + 1) s'"
  shows "a0 \<le> a \<Longrightarrow> a \<le> b + 1 \<Longrightarrow> P a s \<Longrightarrow> \<exists>s'. for_rows fn [a..b] s = Some s' \<and> P (b + 1) s'"
proof (induction "nat (b + 1 - a)" arbitrary: a s)
  case 0
  then have "a = b + 1" by simp
  with 0 show ?case by simp
next
  case (Suc n)
  then have ab: "a \<le> b" by simp
  from step [OF Suc.prems(1) ab Suc.prems(3)] obtain s1
    where s1: "fn a s = Some s1" "P (a + 1) s1" by blast
  have "\<exists>s'. for_rows fn [a + 1..b] s1 = Some s' \<and> P (b + 1) s'"
    by (rule Suc.hyps(1)) (use Suc.hyps(2) Suc.prems ab s1 in simp_all)
  then show ?case using s1 by (simp add: upto_rec1 [OF ab])
qed

lemma upto_shift: "[a - c..b - c] = map (\<lambda>x. x - c) [a..b]"
  by (rule nth_equalityI) simp_all

lemma segment_shift: "segment F (a - c) (b - c) y = segment (\<lambda>x. F (x - c)) a b y"
proof -
  have "[a - c..b - c - 1] = map (\<lambda>x. x - c) [a..b - 1]"
    using upto_shift [of a c "b - 1"] by (simp add: algebra_simps)
  then show ?thesis by (simp add: segment_def comp_def)
qed

lemma four_list: "length xs = 4 \<Longrightarrow> \<exists>a b c d. xs = [a, b, c, d]"
  by (auto simp: eval_nat_numeral length_Suc_conv)

lemma blend_bytes_concat:
  assumes "\<And>x. length (f x) = 4" "\<And>x. length (g x) = 4"
  shows "blend_bytes opacity (concat (map f xs)) (concat (map g xs))
     = concat (map (\<lambda>x. blend_bytes opacity (f x) (g x)) xs)"
proof (induction xs)
  case Nil
  then show ?case by simp
next
  case (Cons x xs)
  from four_list [OF assms(1) [of x]] obtain p0 p1 p2 p3 where f: "f x = [p0, p1, p2, p3]"
    by blast
  from four_list [OF assms(2) [of x]] obtain s0 s1 s2 s3 where g: "g x = [s0, s1, s2, s3]"
    by blast
  show ?case using Cons.IH by (simp add: f g)
qed

lemma blend_bytes_segment:
  assumes "\<And>x y. length (F x y) = 4" "\<And>x y. length (H x y) = 4"
  shows "blend_bytes opacity (segment F a b y) (segment H (a - c) (b - c) y')
     = segment (\<lambda>x y. blend_bytes opacity (F x y) (H (x - c) y')) a b y"
  unfolding segment_shift unfolding segment_def
  by (rule blend_bytes_concat) (simp_all add: assms)

section \<open>Paste\<close>

lemma Empty_no_point: "Empty r \<Longrightarrow> \<not> point_In p r"
  by (auto simp: Empty_def point_In_def)

lemma Intersect_buffer_bounds:
  assumes "\<not> Empty (Intersect p \<lparr>Min_pt = \<lparr>X = 0, Y = 0\<rparr>, Max_pt = \<lparr>X = wd, Y = ht\<rparr>\<rparr>)"
  defines "r \<equiv> Intersect p \<lparr>Min_pt = \<lparr>X = 0, Y = 0\<rparr>, Max_pt = \<lparr>X = wd, Y = ht\<rparr>\<rparr>"
  shows "0 \<le> X (Min_pt r)" "X (Min_pt r) < X (Max_pt r)" "X (Max_pt r) \<le> wd"
    and "0 \<le> Y (Min_pt r)" "Y (Min_pt r) < Y (Max_pt r)" "Y (Max_pt r) \<le> ht"
  using assms(1) unfolding r_def
  by (auto simp: Intersect_def Let_def Empty_def ZR_def ZP_def split: if_splits)

lemma Clone_buffer:
  assumes "well_formed (Bounds img)"
  shows "Clone img =
     Some \<lparr>Pix = region (pixel_bytes img) (buffer_rect img), Stride = 4 * Dx (Bounds img),
           Rect = buffer_rect img\<rparr>"
  using Clone_region [OF assms] by (simp add: buffer_rect_def)

lemma Paste_rows:
  assumes ne: "\<not> Empty (overlap background img pos)"
  shows "for_rows (Paste_row (newScanner img) (4 * Dx (Bounds background))
             (paste_rect background img pos) (overlap background img pos))
           [Y (Min_pt (overlap background img pos))..Y (Max_pt (overlap background img pos)) - 1]
           (region (pixel_bytes background) (buffer_rect background))
         = Some (region (pasted background img pos) (buffer_rect background))"
proof -
  define wd where "wd = Dx (Bounds background)"
  define ht where "ht = Dy (Bounds background)"
  define pr where "pr = paste_rect background img pos"
  define ir where "ir = overlap background img pos"
  define src where "src = newScanner img"
  define br where "br = \<lparr>Min_pt = \<lparr>X = 0, Y = 0\<rparr>, Max_pt = \<lparr>X = wd, Y = ht\<rparr>\<rparr>"
  have br: "buffer_rect background = br" by (simp add: buffer_rect_def br_def wd_def ht_def)
  have ir: "ir = Intersect pr br" by (simp add: ir_def overlap_def pr_def br)
  have ne': "\<not> Empty (Intersect pr \<lparr>Min_pt = \<lparr>X = 0, Y = 0\<rparr>, Max_pt = \<lparr>X = wd, Y = ht\<rparr>\<rparr>)"
    using ne by (simp add: ir_def [symmetric] ir br_def)
  note b = Intersect_buffer_bounds [OF ne', folded br_def ir]
  define stage where "stage = (\<lambda>k x y. if y < k then pasted background img pos x y
                                       else pixel_bytes background x y)"
  have len: "length (stage k x y) = 4" for k x y
    by (simp add: stage_def pasted_def length_pixel_bytes)
  have inside: "pasted background img pos x y
      = pixel_bytes img (x - X (Min_pt pr)) (y - Y (Min_pt pr))"
    if "X (Min_pt ir) \<le> x" "x < X (Max_pt ir)" "Y (Min_pt ir) \<le> y" "y < Y (Max_pt ir)" for x y
    using that by (simp add: pasted_def point_In_def ir_def [symmetric] pr_def [symmetric])
  have outside: "pasted background img pos x y = pixel_bytes background x y"
    if "\<not> (X (Min_pt ir) \<le> x \<and> x < X (Max_pt ir) \<and> Y (Min_pt ir) \<le> y \<and> y < Y (Max_pt ir))" for x y
    using that by (auto simp: pasted_def point_In_def ir_def [symmetric])
  define P where "P = (\<lambda>k pix. pix = region (stage k) br)"
  have "\<exists>s'. for_rows (Paste_row src (4 * wd) pr ir) [Y (Min_pt ir)..Y (Max_pt ir) - 1]
               (region (stage (Y (Min_pt ir))) br) = Some s' \<and> P (Y (Max_pt ir) - 1 + 1) s'"
  proof (rule for_rows_upto [where P = P and ?a0.0 = "Y (Min_pt ir)"])
    show "Y (Min_pt ir) \<le> Y (Min_pt ir)" by simp
    show "Y (Min_pt ir) \<le> Y (Max_pt ir) - 1 + 1" using b by simp
    show "P (Y (Min_pt ir)) (region (stage (Y (Min_pt ir))) br)" by (simp add: P_def)
    fix y s assume y: "Y (Min_pt ir) \<le> y" "y \<le> Y (Max_pt ir) - 1" and s: "P y s"
    have agree: "stage (y + 1) x y' = stage y x y'"
      if "\<not> (y' = y \<and> X (Min_pt ir) \<le> x \<and> x < X (Max_pt ir))" for x y'
      using that outside [of x y] by (auto simp: stage_def)
    from region_row_update [of "stage y" y ht "X (Min_pt ir)" "X (Max_pt ir)" wd "stage (y + 1)",
        OF len _ _ _ _ _ agree] y b
    obtain pre post where
      F: "region (stage y) br = pre @ segment (stage y) (X (Min_pt ir)) (X (Max_pt ir)) y @ post" and
      F': "region (stage (y + 1)) br
            = pre @ segment (stage (y + 1)) (X (Min_pt ir)) (X (Max_pt ir)) y @ post" and
      lpre: "int (length pre) = y * (4 * wd) + X (Min_pt ir) * 4"
      unfolding br_def by force
    let ?bs = "scan src (X (Min_pt ir) - X (Min_pt pr)) (y - Y (Min_pt pr))
                 (X (Max_pt ir) - X (Min_pt pr)) (y - Y (Min_pt pr) + 1)"
    let ?seg = "segment (stage y) (X (Min_pt ir)) (X (Max_pt ir)) y"
    have lbs: "length ?bs = 4 * nat (X (Max_pt ir) - X (Min_pt ir))"
      by (simp add: length_scan)
    have lseg: "length ?seg = 4 * nat (X (Max_pt ir) - X (Min_pt ir))"
      by (rule length_segment) (rule len)
    have "Paste_row src (4 * wd) pr ir y s
        = Some (overwrite (pre @ ?seg @ post) (nat (int (length pre))) ?bs)"
      unfolding Paste_row_def Let_def
      using s F
      by (subst scan_into_Some)
         (use b lpre lseg in \<open>simp_all add: P_def Dx_def algebra_simps\<close>)
    also have "overwrite (pre @ ?seg @ post) (nat (int (length pre))) ?bs = pre @ ?bs @ post"
      using lbs lseg by (simp add: overwrite_append)
    also have "?bs = segment (stage (y + 1)) (X (Min_pt ir)) (X (Max_pt ir)) y"
      unfolding scan_segment segment_shift
      by (rule segment_cong) (use y in \<open>simp add: stage_def inside src_def newScanner_def\<close>)
    finally show "\<exists>s'. Paste_row src (4 * wd) pr ir y s = Some s' \<and> P (y + 1) s'"
      by (simp add: P_def F')
  qed
  moreover have "region (stage (Y (Min_pt ir))) br = region (pixel_bytes background) br"
    by (rule region_cong) (use outside in \<open>auto simp: stage_def\<close>)
  moreover have "region (stage (Y (Max_pt ir))) br = region (pasted background img pos) br"
    by (rule region_cong) (use outside in \<open>auto simp: stage_def\<close>)
  ultimately show ?thesis
    by (simp add: P_def br wd_def ir_def pr_def src_def)
qed

lemma Paste_region:
  assumes "well_formed (Bounds background)"
  shows "Paste background img pos =
     Some \<lparr>Pix = region (pasted background img pos) (buffer_rect background),
           Stride = 4 * Dx (Bounds background), Rect = buffer_rect background\<rparr>"
proof (cases "Empty (overlap background img pos)")
  case True
  have "region (pasted background img pos) (buffer_rect background)
      = region (pixel_bytes background) (buffer_rect background)"
    by (rule region_cong) (simp add: pasted_def Empty_no_point [OF True])
  then show ?thesis
    using True
    by (simp add: Paste_def Clone_buffer [OF assms] Let_def overlap_def paste_rect_def)
next
  case False
  then show ?thesis
    using Paste_rows [OF False]
    by (simp add: Paste_def Clone_buffer [OF assms] Let_def overlap_def paste_rect_def
        parallel_def)
qed

section \<open>Overlay\<close>

lemma overwrite_all: "length bs = length sl \<Longrightarrow> overwrite sl 0 bs = bs"
  by (simp add: overwrite_def)

lemma Overlay_rows:
  assumes ne: "\<not> Empty (overlap background img pos)"
    and sl0: "length sl0 = nat (Dx (overlap background img pos) * 4)"
  shows "\<exists>sl'. for_rows (Overlay_row (newScanner img) opacity (4 * Dx (Bounds background))
             (paste_rect background img pos) (overlap background img pos))
           [Y (Min_pt (overlap background img pos))..Y (Max_pt (overlap background img pos)) - 1]
           (region (pixel_bytes background) (buffer_rect background), sl0)
         = Some (region (overlaid opacity background img pos) (buffer_rect background), sl')"
proof -
  define wd where "wd = Dx (Bounds background)"
  define ht where "ht = Dy (Bounds background)"
  define pr where "pr = paste_rect background img pos"
  define ir where "ir = overlap background img pos"
  define src where "src = newScanner img"
  define br where "br = \<lparr>Min_pt = \<lparr>X = 0, Y = 0\<rparr>, Max_pt = \<lparr>X = wd, Y = ht\<rparr>\<rparr>"
  have br: "buffer_rect background = br" by (simp add: buffer_rect_def br_def wd_def ht_def)
  have ir: "ir = Intersect pr br" by (simp add: ir_def overlap_def pr_def br)
  have ne': "\<not> Empty (Intersect pr \<lparr>Min_pt = \<lparr>X = 0, Y = 0\<rparr>, Max_pt = \<lparr>X = wd, Y = ht\<rparr>\<rparr>)"
    using ne by (simp add: ir_def [symmetric] ir br_def)
  note b = Intersect_buffer_bounds [OF ne', folded br_def ir]
  have im: "image_img src = img" by (simp add: src_def newScanner_def)
  define n where "n = nat (X (Max_pt ir) - X (Min_pt ir))"
  have lsl0: "length sl0 = 4 * n"
    using sl0 b by (simp add: ir_def [symmetric] Dx_def n_def nat_mult_distrib)
  define stage where "stage = (\<lambda>k x y. if y < k then overlaid opacity background img pos x y
                                       else pixel_bytes background x y)"
  have lov: "length (overlaid opacity background img pos x y) = 4" for x y
  proof -
    obtain p0 p1 p2 p3 where p: "pixel_bytes background x y = [p0, p1, p2, p3]"
      using four_list [OF length_pixel_bytes] by blast
    obtain s0 s1 s2 s3 where s: "pixel_bytes img (x - X (Min_pt pr)) (y - Y (Min_pt pr)) = [s0, s1, s2, s3]"
      using four_list [OF length_pixel_bytes] by blast
    obtain c0 c1 c2 c3 where "Overlay_pixel opacity p0 p1 p2 p3 s0 s1 s2 s3 = [c0, c1, c2, c3]"
      using Overlay_pixel_shape by blast
    then show ?thesis by (simp add: overlaid_def p s pr_def [symmetric])
  qed
  have len: "length (stage k x y) = 4" for k x y
    by (simp add: stage_def lov length_pixel_bytes)
  have inside: "overlaid opacity background img pos x y
      = blend_bytes opacity (pixel_bytes background x y)
          (pixel_bytes img (x - X (Min_pt pr)) (y - Y (Min_pt pr)))"
    if "X (Min_pt ir) \<le> x" "x < X (Max_pt ir)" "Y (Min_pt ir) \<le> y" "y < Y (Max_pt ir)" for x y
    using that by (simp add: overlaid_def point_In_def ir_def [symmetric] pr_def [symmetric])
  have outside: "overlaid opacity background img pos x y = pixel_bytes background x y"
    if "\<not> (X (Min_pt ir) \<le> x \<and> x < X (Max_pt ir) \<and> Y (Min_pt ir) \<le> y \<and> y < Y (Max_pt ir))" for x y
    using that by (auto simp: overlaid_def point_In_def ir_def [symmetric])
  define P :: "int \<Rightarrow> uint8 list \<times> uint8 list \<Rightarrow> bool"
    where "P = (\<lambda>k st. fst st = region (stage k) br \<and> length (snd st) = 4 * n)"
  have "\<exists>s'. for_rows (Overlay_row src opacity (4 * wd) pr ir) [Y (Min_pt ir)..Y (Max_pt ir) - 1]
               (region (stage (Y (Min_pt ir))) br, sl0) = Some s' \<and> P (Y (Max_pt ir) - 1 + 1) s'"
  proof (rule for_rows_upto [where P = P and ?a0.0 = "Y (Min_pt ir)"])
    show "Y (Min_pt ir) \<le> Y (Min_pt ir)" by simp
    show "Y (Min_pt ir) \<le> Y (Max_pt ir) - 1 + 1" using b by simp
    show "P (Y (Min_pt ir)) (region (stage (Y (Min_pt ir))) br, sl0)" by (simp add: P_def lsl0)
    fix y s assume y: "Y (Min_pt ir) \<le> y" "y \<le> Y (Max_pt ir) - 1" and s: "P y s"
    obtain pix sl where st: "s = (pix, sl)" by (cases s)
    have pix: "pix = region (stage y) br" and lsl: "length sl = 4 * n"
      using s by (simp_all add: P_def st)
    have agree: "stage (y + 1) x y' = stage y x y'"
      if "\<not> (y' = y \<and> X (Min_pt ir) \<le> x \<and> x < X (Max_pt ir))" for x y'
      using that outside [of x y] by (auto simp: stage_def)
    from region_row_update [of "stage y" y ht "X (Min_pt ir)" "X (Max_pt ir)" wd "stage (y + 1)",
        OF len _ _ _ _ _ agree] y b
    obtain pre post where
      F: "region (stage y) br = pre @ segment (stage y) (X (Min_pt ir)) (X (Max_pt ir)) y @ post" and
      F': "region (stage (y + 1)) br
            = pre @ segment (stage (y + 1)) (X (Min_pt ir)) (X (Max_pt ir)) y @ post" and
      lpre: "int (length pre) = y * (4 * wd) + X (Min_pt ir) * 4"
      unfolding br_def by force
    let ?bs = "scan src (X (Min_pt ir) - X (Min_pt pr)) (y - Y (Min_pt pr))
                 (X (Max_pt ir) - X (Min_pt pr)) (y - Y (Min_pt pr) + 1)"
    let ?seg = "segment (stage y) (X (Min_pt ir)) (X (Max_pt ir)) y"
    let ?xs = "[X (Min_pt ir)..X (Max_pt ir) - 1]"
    have lxs: "length ?xs = n" by (simp add: n_def)
    have lbs: "length ?bs = 4 * n" by (simp add: length_scan n_def)
    have lseg: "length ?seg = 4 * n" unfolding n_def by (rule length_segment) (rule len)
    have sc: "scan_into src (X (Min_pt ir) - X (Min_pt pr)) (y - Y (Min_pt pr))
                 (X (Max_pt ir) - X (Min_pt pr)) (y - Y (Min_pt pr) + 1) sl 0 (int (length sl))
        = Some ?bs"
      using b lsl lbs
      by (subst scan_into_Some) (simp_all add: n_def overwrite_all)
    have "Overlay_cols opacity ([] @ ?bs @ []) ?xs (int (length pre)) (int (length ([] :: uint8 list)))
            (pre @ ?seg @ post)
        = Some (pre @ blend_bytes opacity ?seg ?bs @ post)"
      by (rule Overlay_cols_segment) (simp_all only: lxs lseg lbs)
    then have cols: "Overlay_cols opacity ?bs ?xs (y * (4 * wd) + X (Min_pt ir) * 4) 0 pix
        = Some (pre @ blend_bytes opacity ?seg ?bs @ post)"
      by (simp add: lpre pix F)
    have "?seg = segment (pixel_bytes background) (X (Min_pt ir)) (X (Max_pt ir)) y"
      by (rule segment_cong) (simp add: stage_def)
    then have "blend_bytes opacity ?seg ?bs
        = segment (\<lambda>x y'. blend_bytes opacity (pixel_bytes background x y')
                     (pixel_bytes img (x - X (Min_pt pr)) (y - Y (Min_pt pr))))
            (X (Min_pt ir)) (X (Max_pt ir)) y"
      unfolding scan_segment im
      by (simp only: blend_bytes_segment [OF length_pixel_bytes length_pixel_bytes])
    also have "\<dots> = segment (stage (y + 1)) (X (Min_pt ir)) (X (Max_pt ir)) y"
      by (rule segment_cong) (use y in \<open>simp add: stage_def inside\<close>)
    finally have "Overlay_cols opacity ?bs ?xs (y * (4 * wd) + X (Min_pt ir) * 4) 0 pix
        = Some (region (stage (y + 1)) br)"
      using cols by (simp add: F')
    then show "\<exists>s'. Overlay_row src opacity (4 * wd) pr ir y s = Some s' \<and> P (y + 1) s'"
      using sc lbs by (simp add: Overlay_row_def Let_def st P_def)
  qed
  moreover have "region (stage (Y (Min_pt ir))) br = region (pixel_bytes background) br"
    by (rule region_cong) (use outside in \<open>auto simp: stage_def\<close>)
  moreover have "region (stage (Y (Max_pt ir))) br = region (overlaid opacity background img pos) br"
    by (rule region_cong) (use outside in \<open>auto simp: stage_def\<close>)
  ultimately show ?thesis
    by (auto simp: P_def br wd_def ir_def pr_def src_def)
qed

lemma Overlay_region:
  assumes "well_formed (Bounds background)"
  shows "Overlay background img pos opacity =
     Some \<lparr>Pix = region (overlaid (math_Min (math_Max opacity (Finite 0)) (Finite 1))
                           background img pos) (buffer_rect background),
           Stride = 4 * Dx (Bounds background), Rect = buffer_rect background\<rparr>"
proof (cases "Empty (overlap background img pos)")
  case True
  have "region (overlaid (math_Min (math_Max opacity (Finite 0)) (Finite 1)) background img pos)
          (buffer_rect background)
      = region (pixel_bytes background) (buffer_rect background)"
    by (rule region_cong) (simp add: overlaid_def Empty_no_point [OF True])
  then show ?thesis
    using True
    by (simp add: Overlay_def Clone_buffer [OF assms] Let_def overlap_def paste_rect_def)
next
  case False
  then have dx: "\<not> Dx (overlap background img pos) * 4 < 0"
    by (simp add: Empty_def Dx_def)
  from Overlay_rows [OF False, of "replicate (nat (Dx (overlap background img pos) * 4)) 0"
      "math_Min (math_Max opacity (Finite 0)) (Finite 1)"]
  obtain sl' where "for_rows
       (Overlay_row (newScanner img) (math_Min (math_Max opacity (Finite 0)) (Finite 1))
          (4 * Dx (Bounds background)) (paste_rect background img pos) (overlap background img pos))
       [Y (Min_pt (overlap background img pos))..Y (Max_pt (overlap background img pos)) - 1]
       (region (pixel_bytes background) (buffer_rect background),
        replicate (nat (Dx (overlap background img pos) * 4)) 0)
     = Some (region (overlaid (math_Min (math_Max opacity (Finite 0)) (Finite 1))
                       background img pos) (buffer_rect background), sl')"
    by auto
  then show ?thesis
    using False dx
    by (simp add: Overlay_def Clone_buffer [OF assms] Let_def overlap_def paste_rect_def
        parallel_def)
qed

section \<open>Overlay against Clone and Paste\<close>

lemma blend_bytes_pixels:
  "blend_bytes opacity (pixel_bytes background x y) (pixel_bytes img x' y')
     = Overlay_pixel opacity
         (R (pixel background x y)) (G (pixel background x y))
         (B (pixel background x y)) (A (pixel background x y))
         (R (pixel img x' y')) (G (pixel img x' y')) (B (pixel img x' y')) (A (pixel img x' y'))"
  by (simp add: pixel_bytes_def color_bytes_def)

lemma overlap_in_image:
  assumes "point_In \<lparr>X = x, Y = y\<rparr> (overlap background img pos)"
  shows "0 \<le> x - X (Min_pt (paste_rect background img pos))"
    and "x - X (Min_pt (paste_rect background img pos)) < Dx (Bounds img)"
    and "0 \<le> y - Y (Min_pt (paste_rect background img pos))"
    and "y - Y (Min_pt (paste_rect background img pos)) < Dy (Bounds img)"
proof -
  from assms have "point_In \<lparr>X = x, Y = y\<rparr> (paste_rect background img pos)"
    by (simp add: overlap_def Intersect_In)
  then show "0 \<le> x - X (Min_pt (paste_rect background img pos))"
    and "x - X (Min_pt (paste_rect background img pos)) < Dx (Bounds img)"
    and "0 \<le> y - Y (Min_pt (paste_rect background img pos))"
    and "y - Y (Min_pt (paste_rect background img pos)) < Dy (Bounds img)"
    by (simp_all add: point_In_def paste_rect_def Let_def point_Add_def Size_def Dx_def Dy_def)
qed

lemma length_overlaid: "length (overlaid opacity background img pos x y) = 4"
proof -
  obtain c0 c1 c2 c3 where
    "blend_bytes opacity (pixel_bytes background x y)
       (pixel_bytes img (x - X (Min_pt (paste_rect background img pos)))
          (y - Y (Min_pt (paste_rect background img pos)))) = [c0, c1, c2, c3]"
    unfolding blend_bytes_pixels using Overlay_pixel_shape by blast
  then show ?thesis by (simp add: overlaid_def length_pixel_bytes)
qed

lemma overlaid_no_contribution:
  assumes "\<And>s3. point_In \<lparr>X = x, Y = y\<rparr> (overlap background img pos) \<Longrightarrow>
             s3 = A (pixel img (x - X (Min_pt (paste_rect background img pos)))
                        (y - Y (Min_pt (paste_rect background img pos)))) \<Longrightarrow>
             f64_mul opacity (float64_of_uint8 s3) = Finite 0
             \<and> f64_mul (float64_of_uint8 s3) opacity = Finite 0"
  shows "overlaid opacity background img pos x y ! 3 = A (pixel background x y)"
    and "A (pixel background x y) \<noteq> 0 \<or> \<not> point_In \<lparr>X = x, Y = y\<rparr> (overlap background img pos)
           \<Longrightarrow> overlaid opacity background img pos x y = pixel_bytes background x y"
proof -
  show "overlaid opacity background img pos x y ! 3 = A (pixel background x y)"
  proof (cases "point_In \<lparr>X = x, Y = y\<rparr> (overlap background img pos)")
    case True
    from assms [OF True refl] show ?thesis
      using True by (simp add: overlaid_def blend_bytes_pixels Overlay_pixel_alpha_kept)
  next
    case False
    then show ?thesis by (simp add: overlaid_def pixel_bytes_def color_bytes_def)
  qed
  assume h: "A (pixel background x y) \<noteq> 0 \<or> \<not> point_In \<lparr>X = x, Y = y\<rparr> (overlap background img pos)"
  show "overlaid opacity background img pos x y = pixel_bytes background x y"
  proof (cases "point_In \<lparr>X = x, Y = y\<rparr> (overlap background img pos)")
    case True
    with h have a: "A (pixel background x y) \<noteq> 0" by simp
    from assms [OF True refl] show ?thesis
      using True a
      by (simp add: overlaid_def blend_bytes_pixels Overlay_pixel_background_kept)
         (simp add: pixel_bytes_def color_bytes_def)
  next
    case False
    then show ?thesis by (simp add: overlaid_def)
  qed
qed

text \<open>
  C4, as the code has it. With opacity 0 the result has the size and stride of the clone
  of the background, every pixel keeps its alpha, and every pixel that lies outside the
  overlapped region or whose background alpha is not 0 is byte-identical to the
  background's pixel. So \<^verbatim>\<open>Overlay(bg, fg, pos, 0.0)\<close> equals \<^verbatim>\<open>Clone(bg)\<close> whenever no
  background pixel inside the overlapped region is fully transparent.
\<close>

theorem Overlay_opacity_0:
  "well_formed (Bounds background) \<longrightarrow>
     Overlay background img pos (Finite 0) =
       Some \<lparr>Pix = region (overlaid (Finite 0) background img pos) (buffer_rect background),
             Stride = 4 * Dx (Bounds background), Rect = buffer_rect background\<rparr>
   \<and> Clone background =
       Some \<lparr>Pix = region (pixel_bytes background) (buffer_rect background),
             Stride = 4 * Dx (Bounds background), Rect = buffer_rect background\<rparr>
   \<and> (\<forall>x y. length (overlaid (Finite 0) background img pos x y) = 4
          \<and> overlaid (Finite 0) background img pos x y ! 3 = A (pixel background x y)
          \<and> (A (pixel background x y) \<noteq> 0 \<or> \<not> point_In \<lparr>X = x, Y = y\<rparr> (overlap background img pos)
               \<longrightarrow> overlaid (Finite 0) background img pos x y = pixel_bytes background x y))
   \<and> ((\<forall>x y. point_In \<lparr>X = x, Y = y\<rparr> (overlap background img pos) \<longrightarrow> A (pixel background x y) \<noteq> 0)
        \<longrightarrow> Overlay background img pos (Finite 0) = Clone background)"
proof
  assume wf: "well_formed (Bounds background)"
  have ov: "Overlay background img pos (Finite 0) =
       Some \<lparr>Pix = region (overlaid (Finite 0) background img pos) (buffer_rect background),
             Stride = 4 * Dx (Bounds background), Rect = buffer_rect background\<rparr>"
    using Overlay_region [OF wf, of img pos "Finite 0"] by (simp only: clamp_opacity_0)
  have cl: "Clone background =
       Some \<lparr>Pix = region (pixel_bytes background) (buffer_rect background),
             Stride = 4 * Dx (Bounds background), Rect = buffer_rect background\<rparr>"
    by (rule Clone_buffer [OF wf])
  have px: "overlaid (Finite 0) background img pos x y ! 3 = A (pixel background x y)"
    and keep: "A (pixel background x y) \<noteq> 0 \<or> \<not> point_In \<lparr>X = x, Y = y\<rparr> (overlap background img pos)
      \<Longrightarrow> overlaid (Finite 0) background img pos x y = pixel_bytes background x y" for x y
    by (rule overlaid_no_contribution, simp add: no_contribution_opacity_0)+
  have eq: "Overlay background img pos (Finite 0) = Clone background"
    if "\<forall>x y. point_In \<lparr>X = x, Y = y\<rparr> (overlap background img pos) \<longrightarrow> A (pixel background x y) \<noteq> 0"
  proof -
    have "region (overlaid (Finite 0) background img pos) (buffer_rect background)
        = region (pixel_bytes background) (buffer_rect background)"
      by (rule region_cong) (use that keep in blast)
    then show ?thesis by (simp add: ov cl)
  qed
  show "Overlay background img pos (Finite 0) =
       Some \<lparr>Pix = region (overlaid (Finite 0) background img pos) (buffer_rect background),
             Stride = 4 * Dx (Bounds background), Rect = buffer_rect background\<rparr>
   \<and> Clone background =
       Some \<lparr>Pix = region (pixel_bytes background) (buffer_rect background),
             Stride = 4 * Dx (Bounds background), Rect = buffer_rect background\<rparr>
   \<and> (\<forall>x y. length (overlaid (Finite 0) background img pos x y) = 4
          \<and> overlaid (Finite 0) background img pos x y ! 3 = A (pixel background x y)
          \<and> (A (pixel background x y) \<noteq> 0 \<or> \<not> point_In \<lparr>X = x, Y = y\<rparr> (overlap background img pos)
               \<longrightarrow> overlaid (Finite 0) background img pos x y = pixel_bytes background x y))
   \<and> ((\<forall>x y. point_In \<lparr>X = x, Y = y\<rparr> (overlap background img pos) \<longrightarrow> A (pixel background x y) \<noteq> 0)
        \<longrightarrow> Overlay background img pos (Finite 0) = Clone background)"
    using ov cl px keep eq length_overlaid by blast
qed

theorem Overlay_opacity_0_witness:
  "well_formed (Bounds opaque_2x2)
   \<and> Overlay opaque_2x2 red_1x1 \<lparr>X = 1, Y = 1\<rparr> (Finite 0) = Clone opaque_2x2
   \<and> Clone opaque_2x2 =
       Some \<lparr>Pix = [1, 2, 3, 255, 1, 2, 3, 255, 1, 2, 3, 255, 1, 2, 3, 255], Stride = 8,
             Rect = \<lparr>Min_pt = \<lparr>X = 0, Y = 0\<rparr>, Max_pt = \<lparr>X = 2, Y = 2\<rparr>\<rparr>\<rparr>"
proof -
  have wf: "well_formed (Bounds opaque_2x2)"
    by (simp add: opaque_2x2_def image_of_def well_formed_def)
  have a: "\<forall>x y. point_In \<lparr>X = x, Y = y\<rparr> (overlap opaque_2x2 red_1x1 \<lparr>X = 1, Y = 1\<rparr>)
             \<longrightarrow> A (pixel opaque_2x2 x y) \<noteq> 0"
    by (simp add: opaque_2x2_def image_of_def rgba_def)
  have c: "Clone opaque_2x2 =
       Some \<lparr>Pix = [1, 2, 3, 255, 1, 2, 3, 255, 1, 2, 3, 255, 1, 2, 3, 255], Stride = 8,
             Rect = \<lparr>Min_pt = \<lparr>X = 0, Y = 0\<rparr>, Max_pt = \<lparr>X = 2, Y = 2\<rparr>\<rparr>\<rparr>"
    by code_simp
  have "Overlay opaque_2x2 red_1x1 \<lparr>X = 1, Y = 1\<rparr> (Finite 0) = Clone opaque_2x2"
    using Overlay_opacity_0 [of opaque_2x2 red_1x1 "\<lparr>X = 1, Y = 1\<rparr>"] wf a by blast
  then show ?thesis using wf c by simp
qed

text \<open>
  The claim as stated fails on a background pixel that is fully transparent but carries
  colour: both coefficients are 0, their quotient is NaN, and the red, green and blue
  bytes written are the conversion of NaN, while the clone keeps 10, 20, 30.
\<close>

theorem Overlay_opacity_0_not_Clone:
  "Overlay ghost_2x2 red_1x1 \<lparr>X = 1, Y = 1\<rparr> (Finite 0) =
     Some \<lparr>Pix = [10, 20, 30, 0, 10, 20, 30, 0, 10, 20, 30, 0, 0, 0, 0, 0], Stride = 8,
           Rect = \<lparr>Min_pt = \<lparr>X = 0, Y = 0\<rparr>, Max_pt = \<lparr>X = 2, Y = 2\<rparr>\<rparr>\<rparr>
   \<and> Clone ghost_2x2 =
     Some \<lparr>Pix = [10, 20, 30, 0, 10, 20, 30, 0, 10, 20, 30, 0, 10, 20, 30, 0], Stride = 8,
           Rect = \<lparr>Min_pt = \<lparr>X = 0, Y = 0\<rparr>, Max_pt = \<lparr>X = 2, Y = 2\<rparr>\<rparr>\<rparr>"
  by code_simp

text \<open>
  C5, as the code has it. When every pixel of the foreground has alpha 0, overlaying it
  with opacity 1 keeps the alpha of every pixel, and keeps all four bytes of every pixel
  that lies outside the overlapped region or whose background alpha is not 0. So the
  result equals the clone of the background whenever no background pixel inside the
  overlapped region is fully transparent.
\<close>

theorem Overlay_transparent_foreground:
  "well_formed (Bounds background) \<and>
   (\<forall>x y. 0 \<le> x \<and> x < Dx (Bounds img) \<and> 0 \<le> y \<and> y < Dy (Bounds img) \<longrightarrow> A (pixel img x y) = 0)
   \<longrightarrow>
     Overlay background img pos (Finite 1) =
       Some \<lparr>Pix = region (overlaid (Finite 1) background img pos) (buffer_rect background),
             Stride = 4 * Dx (Bounds background), Rect = buffer_rect background\<rparr>
   \<and> (\<forall>x y. length (overlaid (Finite 1) background img pos x y) = 4
          \<and> overlaid (Finite 1) background img pos x y ! 3 = A (pixel background x y)
          \<and> (A (pixel background x y) \<noteq> 0 \<or> \<not> point_In \<lparr>X = x, Y = y\<rparr> (overlap background img pos)
               \<longrightarrow> overlaid (Finite 1) background img pos x y = pixel_bytes background x y))
   \<and> ((\<forall>x y. point_In \<lparr>X = x, Y = y\<rparr> (overlap background img pos) \<longrightarrow> A (pixel background x y) \<noteq> 0)
        \<longrightarrow> Overlay background img pos (Finite 1) = Clone background)"
proof
  assume h: "well_formed (Bounds background) \<and>
   (\<forall>x y. 0 \<le> x \<and> x < Dx (Bounds img) \<and> 0 \<le> y \<and> y < Dy (Bounds img) \<longrightarrow> A (pixel img x y) = 0)"
  then have wf: "well_formed (Bounds background)" by simp
  have ov: "Overlay background img pos (Finite 1) =
       Some \<lparr>Pix = region (overlaid (Finite 1) background img pos) (buffer_rect background),
             Stride = 4 * Dx (Bounds background), Rect = buffer_rect background\<rparr>"
    using Overlay_region [OF wf, of img pos "Finite 1"] by (simp only: clamp_opacity_1)
  have none: "f64_mul (Finite 1) (float64_of_uint8 s3) = Finite 0
      \<and> f64_mul (float64_of_uint8 s3) (Finite 1) = Finite 0"
    if "point_In \<lparr>X = x, Y = y\<rparr> (overlap background img pos)"
      and "s3 = A (pixel img (x - X (Min_pt (paste_rect background img pos)))
                        (y - Y (Min_pt (paste_rect background img pos))))" for x y s3
  proof -
    have "s3 = 0" unfolding that(2) using h overlap_in_image [OF that(1)] by blast
    then show ?thesis by (simp add: no_contribution_alpha_0)
  qed
  have px: "overlaid (Finite 1) background img pos x y ! 3 = A (pixel background x y)"
    and keep: "A (pixel background x y) \<noteq> 0 \<or> \<not> point_In \<lparr>X = x, Y = y\<rparr> (overlap background img pos)
      \<Longrightarrow> overlaid (Finite 1) background img pos x y = pixel_bytes background x y" for x y
    by (rule overlaid_no_contribution, rule none, assumption+)+
  have eq: "Overlay background img pos (Finite 1) = Clone background"
    if "\<forall>x y. point_In \<lparr>X = x, Y = y\<rparr> (overlap background img pos) \<longrightarrow> A (pixel background x y) \<noteq> 0"
  proof -
    have "region (overlaid (Finite 1) background img pos) (buffer_rect background)
        = region (pixel_bytes background) (buffer_rect background)"
      by (rule region_cong) (use that keep in blast)
    then show ?thesis by (simp add: ov Clone_buffer [OF wf])
  qed
  show "Overlay background img pos (Finite 1) =
       Some \<lparr>Pix = region (overlaid (Finite 1) background img pos) (buffer_rect background),
             Stride = 4 * Dx (Bounds background), Rect = buffer_rect background\<rparr>
   \<and> (\<forall>x y. length (overlaid (Finite 1) background img pos x y) = 4
          \<and> overlaid (Finite 1) background img pos x y ! 3 = A (pixel background x y)
          \<and> (A (pixel background x y) \<noteq> 0 \<or> \<not> point_In \<lparr>X = x, Y = y\<rparr> (overlap background img pos)
               \<longrightarrow> overlaid (Finite 1) background img pos x y = pixel_bytes background x y))
   \<and> ((\<forall>x y. point_In \<lparr>X = x, Y = y\<rparr> (overlap background img pos) \<longrightarrow> A (pixel background x y) \<noteq> 0)
        \<longrightarrow> Overlay background img pos (Finite 1) = Clone background)"
    using ov px keep eq length_overlaid by blast
qed

lemma Clone_opaque_2x2:
  "Clone opaque_2x2 =
       Some \<lparr>Pix = [1, 2, 3, 255, 1, 2, 3, 255, 1, 2, 3, 255, 1, 2, 3, 255], Stride = 8,
             Rect = \<lparr>Min_pt = \<lparr>X = 0, Y = 0\<rparr>, Max_pt = \<lparr>X = 2, Y = 2\<rparr>\<rparr>\<rparr>"
  by code_simp

theorem Overlay_transparent_foreground_witness:
  "well_formed (Bounds opaque_2x2)
   \<and> A (pixel clear_2x2 1 1) = 0
   \<and> Overlay opaque_2x2 clear_2x2 \<lparr>X = 0, Y = 0\<rparr> (Finite 1) =
       Some \<lparr>Pix = [1, 2, 3, 255, 1, 2, 3, 255, 1, 2, 3, 255, 1, 2, 3, 255], Stride = 8,
             Rect = \<lparr>Min_pt = \<lparr>X = 0, Y = 0\<rparr>, Max_pt = \<lparr>X = 2, Y = 2\<rparr>\<rparr>\<rparr>"
proof -
  have wf: "well_formed (Bounds opaque_2x2)"
    by (simp add: opaque_2x2_def image_of_def well_formed_def)
  have t: "\<forall>x y. 0 \<le> x \<and> x < Dx (Bounds clear_2x2) \<and> 0 \<le> y \<and> y < Dy (Bounds clear_2x2)
             \<longrightarrow> A (pixel clear_2x2 x y) = 0"
    by (simp add: clear_2x2_def image_of_def rgba_def)
  have a: "\<forall>x y. point_In \<lparr>X = x, Y = y\<rparr> (overlap opaque_2x2 clear_2x2 \<lparr>X = 0, Y = 0\<rparr>)
             \<longrightarrow> A (pixel opaque_2x2 x y) \<noteq> 0"
    by (simp add: opaque_2x2_def image_of_def rgba_def)
  have "Overlay opaque_2x2 clear_2x2 \<lparr>X = 0, Y = 0\<rparr> (Finite 1) = Clone opaque_2x2"
    using Overlay_transparent_foreground [of opaque_2x2 clear_2x2 "\<lparr>X = 0, Y = 0\<rparr>"] wf t a
    by blast
  then show ?thesis
    using wf Clone_opaque_2x2 by (simp add: clear_2x2_def image_of_def rgba_def)
qed

text \<open>
  The claim as stated fails on the background whose pixels are fully transparent but
  carry colour: under the transparent 2 by 2 foreground the red, green and blue bytes
  10, 20, 30 are replaced by the conversion of NaN.
\<close>

theorem Overlay_transparent_foreground_changes_colour:
  "Overlay ghost_2x2 clear_2x2 \<lparr>X = 0, Y = 0\<rparr> (Finite 1) =
     Some \<lparr>Pix = [0, 0, 0, 0, 0, 0, 0, 0, 0, 0, 0, 0, 0, 0, 0, 0], Stride = 8,
           Rect = \<lparr>Min_pt = \<lparr>X = 0, Y = 0\<rparr>, Max_pt = \<lparr>X = 2, Y = 2\<rparr>\<rparr>\<rparr>
   \<and> pixel_bytes ghost_2x2 0 0 = [10, 20, 30, 0]
   \<and> A (pixel clear_2x2 0 0) = 0"
  by code_simp

text \<open>
  C6. When every pixel of the foreground has alpha 255, overlaying it with opacity 1
  gives the buffer that pasting it gives, byte for byte: the background with the
  overlapped pixels replaced by the foreground's.
\<close>

theorem Overlay_opaque_is_Paste:
  "well_formed (Bounds background) \<and>
   (\<forall>x y. 0 \<le> x \<and> x < Dx (Bounds img) \<and> 0 \<le> y \<and> y < Dy (Bounds img) \<longrightarrow> A (pixel img x y) = 255)
   \<longrightarrow> Overlay background img pos (Finite 1) = Paste background img pos
     \<and> Paste background img pos =
         Some \<lparr>Pix = region (pasted background img pos) (buffer_rect background),
               Stride = 4 * Dx (Bounds background), Rect = buffer_rect background\<rparr>"
proof
  assume h: "well_formed (Bounds background) \<and>
   (\<forall>x y. 0 \<le> x \<and> x < Dx (Bounds img) \<and> 0 \<le> y \<and> y < Dy (Bounds img) \<longrightarrow> A (pixel img x y) = 255)"
  then have wf: "well_formed (Bounds background)" by simp
  have ov: "Overlay background img pos (Finite 1) =
       Some \<lparr>Pix = region (overlaid (Finite 1) background img pos) (buffer_rect background),
             Stride = 4 * Dx (Bounds background), Rect = buffer_rect background\<rparr>"
    using Overlay_region [OF wf, of img pos "Finite 1"] by (simp only: clamp_opacity_1)
  have pa: "Paste background img pos =
         Some \<lparr>Pix = region (pasted background img pos) (buffer_rect background),
               Stride = 4 * Dx (Bounds background), Rect = buffer_rect background\<rparr>"
    by (rule Paste_region [OF wf])
  have "overlaid (Finite 1) background img pos x y = pasted background img pos x y" for x y
  proof (cases "point_In \<lparr>X = x, Y = y\<rparr> (overlap background img pos)")
    case True
    let ?s = "pixel img (x - X (Min_pt (paste_rect background img pos)))
                (y - Y (Min_pt (paste_rect background img pos)))"
    have "A ?s = 255" using h overlap_in_image [OF True] by blast
    then have "blend_bytes (Finite 1) (pixel_bytes background x y)
        (pixel_bytes img (x - X (Min_pt (paste_rect background img pos)))
           (y - Y (Min_pt (paste_rect background img pos))))
      = [R ?s, G ?s, B ?s, A ?s]"
      by (simp add: blend_bytes_pixels Overlay_pixel_opaque)
    then show ?thesis using True by (simp add: overlaid_def pasted_def pixel_bytes_def color_bytes_def)
  next
    case False
    then show ?thesis by (simp add: overlaid_def pasted_def)
  qed
  then have "region (overlaid (Finite 1) background img pos) (buffer_rect background)
      = region (pasted background img pos) (buffer_rect background)"
    by (intro region_cong)
  then show "Overlay background img pos (Finite 1) = Paste background img pos
     \<and> Paste background img pos =
         Some \<lparr>Pix = region (pasted background img pos) (buffer_rect background),
               Stride = 4 * Dx (Bounds background), Rect = buffer_rect background\<rparr>"
    using ov pa by simp
qed

lemma Paste_ghost_red:
  "Paste ghost_2x2 red_1x1 \<lparr>X = 1, Y = 1\<rparr> =
     Some \<lparr>Pix = [10, 20, 30, 0, 10, 20, 30, 0, 10, 20, 30, 0, 200, 100, 50, 255], Stride = 8,
           Rect = \<lparr>Min_pt = \<lparr>X = 0, Y = 0\<rparr>, Max_pt = \<lparr>X = 2, Y = 2\<rparr>\<rparr>\<rparr>"
  by code_simp

theorem Overlay_opaque_is_Paste_witness:
  "well_formed (Bounds ghost_2x2)
   \<and> A (pixel red_1x1 0 0) = 255
   \<and> Overlay ghost_2x2 red_1x1 \<lparr>X = 1, Y = 1\<rparr> (Finite 1) = Paste ghost_2x2 red_1x1 \<lparr>X = 1, Y = 1\<rparr>
   \<and> Paste ghost_2x2 red_1x1 \<lparr>X = 1, Y = 1\<rparr> =
       Some \<lparr>Pix = [10, 20, 30, 0, 10, 20, 30, 0, 10, 20, 30, 0, 200, 100, 50, 255], Stride = 8,
             Rect = \<lparr>Min_pt = \<lparr>X = 0, Y = 0\<rparr>, Max_pt = \<lparr>X = 2, Y = 2\<rparr>\<rparr>\<rparr>"
proof -
  have wf: "well_formed (Bounds ghost_2x2)"
    by (simp add: ghost_2x2_def image_of_def well_formed_def)
  have t: "\<forall>x y. 0 \<le> x \<and> x < Dx (Bounds red_1x1) \<and> 0 \<le> y \<and> y < Dy (Bounds red_1x1)
             \<longrightarrow> A (pixel red_1x1 x y) = 255"
    by (simp add: red_1x1_def image_of_def rgba_def)
  have "Overlay ghost_2x2 red_1x1 \<lparr>X = 1, Y = 1\<rparr> (Finite 1) = Paste ghost_2x2 red_1x1 \<lparr>X = 1, Y = 1\<rparr>"
    using Overlay_opaque_is_Paste [of ghost_2x2 red_1x1 "\<lparr>X = 1, Y = 1\<rparr>"] wf t by blast
  then show ?thesis
    using wf Paste_ghost_red by (simp add: red_1x1_def image_of_def rgba_def)
qed

text \<open>
  C10. \<^verbatim>\<open>Overlay\<close> uses the opacity only through \<open>min (max p 0) 1\<close>, so a call with any
  opacity, also below 0 or above 1, gives what the call with the clamped opacity gives.
  The clamped opacity of a number or an infinity lies between 0 and 1 (that of NaN is
  NaN), and the call returns a buffer for every opacity.
\<close>

theorem Overlay_clamps_opacity:
  "Overlay background img pos p
     = Overlay background img pos (math_Min (math_Max p (Finite 0)) (Finite 1))
   \<and> (case math_Min (math_Max p (Finite 0)) (Finite 1) of
         Finite q \<Rightarrow> 0 \<le> q \<and> q \<le> 1 | NaN \<Rightarrow> p = NaN | _ \<Rightarrow> False)
   \<and> (well_formed (Bounds background) \<longrightarrow> (\<exists>dst. Overlay background img pos p = Some dst))"
proof (intro conjI impI)
  show "Overlay background img pos p
     = Overlay background img pos (math_Min (math_Max p (Finite 0)) (Finite 1))"
    unfolding Overlay_def Let_def clamp_idem ..
  show "case math_Min (math_Max p (Finite 0)) (Finite 1) of
         Finite q \<Rightarrow> 0 \<le> q \<and> q \<le> 1 | NaN \<Rightarrow> p = NaN | _ \<Rightarrow> False"
    by (cases p) (simp_all add: min_def max_def)
  assume "well_formed (Bounds background)"
  then show "\<exists>dst. Overlay background img pos p = Some dst"
    using Overlay_region [of background img pos p] by blast
qed

lemma Overlay_opaque_red:
  "Overlay opaque_2x2 red_1x1 \<lparr>X = 1, Y = 1\<rparr> (Finite 1) =
     Some \<lparr>Pix = [1, 2, 3, 255, 1, 2, 3, 255, 1, 2, 3, 255, 200, 100, 50, 255], Stride = 8,
           Rect = \<lparr>Min_pt = \<lparr>X = 0, Y = 0\<rparr>, Max_pt = \<lparr>X = 2, Y = 2\<rparr>\<rparr>\<rparr>"
  by code_simp

theorem Overlay_clamps_opacity_witness:
  "well_formed (Bounds opaque_2x2)
   \<and> Overlay opaque_2x2 red_1x1 \<lparr>X = 1, Y = 1\<rparr> (Finite 7) =
       Some \<lparr>Pix = [1, 2, 3, 255, 1, 2, 3, 255, 1, 2, 3, 255, 200, 100, 50, 255], Stride = 8,
             Rect = \<lparr>Min_pt = \<lparr>X = 0, Y = 0\<rparr>, Max_pt = \<lparr>X = 2, Y = 2\<rparr>\<rparr>\<rparr>
   \<and> (\<exists>dst. Overlay opaque_2x2 red_1x1 \<lparr>X = 1, Y = 1\<rparr> (Finite (- 3)) = Some dst)"
proof -
  have wf: "well_formed (Bounds opaque_2x2)"
    by (simp add: opaque_2x2_def image_of_def well_formed_def)
  have "Overlay opaque_2x2 red_1x1 \<lparr>X = 1, Y = 1\<rparr> (Finite 7)
      = Overlay opaque_2x2 red_1x1 \<lparr>X = 1, Y = 1\<rparr> (Finite 1)"
    using Overlay_clamps_opacity [of opaque_2x2 red_1x1 "\<lparr>X = 1, Y = 1\<rparr>" "Finite 7"] by simp
  moreover have "\<exists>dst. Overlay opaque_2x2 red_1x1 \<lparr>X = 1, Y = 1\<rparr> (Finite (- 3)) = Some dst"
    using Overlay_clamps_opacity [of opaque_2x2 red_1x1 "\<lparr>X = 1, Y = 1\<rparr>" "Finite (- 3)"] wf
    by blast
  ultimately show ?thesis using wf Overlay_opaque_red by simp
qed

end
